theory Spec2Isabelle
  imports Complex_Main "HOL-Library.Log_Nat" "HOL-Library.Multiset"
begin

section \<open>Data model\<close>

text \<open>
  Identifiers are JavaScript values: a string, \<open>null\<close> (the id of the synthetic BYE
  player, the winner of an undecided match, an unset schedule) or \<open>undefined\<close> (an
  absent property, the result of optional chaining). Strict inequality \<open>!==\<close> on
  these values is HOL inequality.
\<close>

datatype ident = Undefined | Null | Str string

text \<open>JavaScript truthiness of an identifier: only a non-empty string is truthy.\<close>

fun truthy :: "ident \<Rightarrow> bool" where
  "truthy (Str s) = (s \<noteq> [])"
| "truthy Null = False"
| "truthy Undefined = False"

text \<open>String conversion, as a template literal or a property key performs it.\<close>

fun to_string :: "ident \<Rightarrow> string" where
  "to_string (Str s) = s"
| "to_string Null = ''null''"
| "to_string Undefined = ''undefined''"

datatype error = TypeError

text \<open>
  The objects of the application. Two records cannot share a field name, so the fields
  \<open>id\<close>, \<open>name\<close>, \<open>players\<close>, \<open>type\<close> and \<open>createdAt\<close> carry a letter for their
  object: \<open>pid\<close> and \<open>pname\<close> of a player, \<open>mid\<close> and \<open>mplayers\<close> of a match, \<open>tid\<close>
  and \<open>ttype\<close> of a tournament. A match of the single-elimination flat list also has
  a \<open>tournamentId\<close>; elsewhere the property is absent.
\<close>

record player =
  pid :: ident
  pname :: string

record match =
  mid :: string
  mplayers :: "player list"
  score :: "int list"
  winner :: ident
  scheduledAt :: ident
  m_tournamentId :: ident

text \<open>
  A partial update \<open>{score?, winner?, scheduledAt?}\<close>: \<open>None\<close> is an absent key,
  \<open>Some v\<close> a key present with value \<open>v\<close> (which may itself be \<open>null\<close>).
\<close>

record match_update =
  u_score :: "int list option"
  u_winner :: "ident option"
  u_scheduledAt :: "ident option"

text \<open>
  The structural view. \<open>createTournament\<close> stores \<open>{rounds}\<close> for the single,
  round-robin and league formats and \<open>{type, winners, losers}\<close> for the double
  format; an absent property is \<open>None\<close>.
\<close>

record meta =
  mtype :: ident
  rounds :: "match list list option"
  winners :: "match list list option"
  losers :: "match list list option"

record comment =
  cid :: string
  userId :: ident
  body :: string
  c_createdAt :: string

record user =
  u_id :: string
  u_name :: string
  email :: string
  pass :: string
  admin :: bool

record tournament =
  tid :: string
  title :: string
  ttype :: string
  organizerId :: string
  players :: "player list"
  createdAt :: string
  scheduleMode :: string
  chat :: "comment list"
  adminNotes :: "string list"
  matches :: "match list"
  meta :: meta

record payload =
  p_matchIds :: "string list option"
  p_scheduledAt :: ident
  p_playerId :: ident

section \<open>Tournament lifecycle: updates\<close>

text \<open>The object spread \<open>{ ...m, ...update }\<close>.\<close>

definition apply_update :: "match \<Rightarrow> match_update \<Rightarrow> match" where
  "apply_update m u =
     m\<lparr>score := (case u_score u of None \<Rightarrow> score m | Some s \<Rightarrow> s),
       winner := (case u_winner u of None \<Rightarrow> winner m | Some w \<Rightarrow> w),
       scheduledAt := (case u_scheduledAt u of None \<Rightarrow> scheduledAt m | Some d \<Rightarrow> d)\<rparr>"

definition patch :: "string \<Rightarrow> match_update \<Rightarrow> match \<Rightarrow> match" where
  "patch matchId u m = (if mid m = matchId then apply_update m u else m)"

text \<open>The body of the \<open>ts.map\<close> callback of \<open>updateMatch\<close>, for one tournament.\<close>

definition updateMatch_t :: "string \<Rightarrow> string \<Rightarrow> match_update \<Rightarrow> tournament \<Rightarrow> tournament" where
  "updateMatch_t tournamentId matchId u t =
     (if tid t \<noteq> tournamentId then t
      else
        let newT = t\<lparr>matches := map (patch matchId u) (matches t)\<rparr> in
        (case rounds (meta newT) of
           None \<Rightarrow> newT
         | Some rs \<Rightarrow> newT\<lparr>meta := (meta newT)\<lparr>rounds := Some (map (map (patch matchId u)) rs)\<rparr>\<rparr>))"

definition updateMatch :: "tournament list \<Rightarrow> string \<Rightarrow> string \<Rightarrow> match_update \<Rightarrow> tournament list" where
  "updateMatch ts tournamentId matchId u = map (updateMatch_t tournamentId matchId u) ts"

text \<open>
  \<open>setScore\<close> of the tournament view, on integer scores: \<open>m.players[i].id\<close> raises
  a TypeError when the match has no player at index \<open>i\<close>; nothing is stored then.
\<close>

definition setScore ::
  "tournament list \<Rightarrow> tournament \<Rightarrow> match \<Rightarrow> int \<Rightarrow> int \<Rightarrow> error + tournament list" where
  "setScore ts t m aScore bScore =
     (if aScore = bScore
      then Inr (updateMatch ts (tid t) (mid m)
             \<lparr>u_score = Some [aScore, bScore], u_winner = Some Null, u_scheduledAt = None\<rparr>)
      else
        let i = (if aScore > bScore then 0 else 1 :: nat) in
        if i < length (mplayers m)
        then Inr (updateMatch ts (tid t) (mid m)
               \<lparr>u_score = Some [aScore, bScore], u_winner = Some (pid (mplayers m ! i)),
                u_scheduledAt = None\<rparr>)
        else Inl TypeError)"

text \<open>
  \<open>adminAction\<close>, for one tournament. The reschedule branch reads
  \<open>payload.matchIds.includes\<close> once per match, which raises when the payload has no
  \<open>matchIds\<close>; the disqualify branch appends the audit note built from the player id,
  the current user's id (\<open>currentUser?.id\<close>) and the clock.
\<close>

definition audit_note :: "ident \<Rightarrow> user option \<Rightarrow> string \<Rightarrow> string" where
  "audit_note playerIdent currentUser now =
     ''Disqualified '' @ to_string playerIdent @ '' by '' @
     (case currentUser of None \<Rightarrow> ''undefined'' | Some u \<Rightarrow> u_id u) @ '' at '' @ now"

definition adminAction_t ::
  "user option \<Rightarrow> string \<Rightarrow> string \<Rightarrow> string \<Rightarrow> payload \<Rightarrow> tournament \<Rightarrow> error + tournament" where
  "adminAction_t currentUser now tournamentId action pl t =
     (if tid t \<noteq> tournamentId then Inr t
      else if action = ''reschedule'' then
        (if matches t = [] then Inr t
         else (case p_matchIds pl of
                 None \<Rightarrow> Inl TypeError
               | Some ids \<Rightarrow>
                   Inr (t\<lparr>matches :=
                          map (\<lambda>m. if mid m \<in> set ids then m\<lparr>scheduledAt := p_scheduledAt pl\<rparr> else m)
                            (matches t)\<rparr>)))
      else if action = ''disqualify'' then
        Inr (t\<lparr>players := filter (\<lambda>p. pid p \<noteq> p_playerId pl) (players t),
               adminNotes := adminNotes t @ [audit_note (p_playerId pl) currentUser now]\<rparr>)
      else Inr t)"

text \<open>\<open>ts.map\<close> with a callback that may raise: the first exception aborts the update.\<close>

fun map_result :: "('a \<Rightarrow> error + 'b) \<Rightarrow> 'a list \<Rightarrow> error + 'b list" where
  "map_result f [] = Inr []"
| "map_result f (x # xs) =
     (case f x of
        Inl e \<Rightarrow> Inl e
      | Inr y \<Rightarrow> (case map_result f xs of Inl e \<Rightarrow> Inl e | Inr ys \<Rightarrow> Inr (y # ys)))"

definition adminAction ::
  "tournament list \<Rightarrow> user option \<Rightarrow> string \<Rightarrow> string \<Rightarrow> string \<Rightarrow> payload \<Rightarrow> error + tournament list" where
  "adminAction ts currentUser now tournamentId action pl =
     map_result (adminAction_t currentUser now tournamentId action pl) ts"

section \<open>Identifier source and bracket generators\<close>

text \<open>
  \<open>uid(prefix)\<close> is \<open>prefix + "_" + Math.random().toString(36).slice(2, 9)\<close>. The
  random suffixes are an explicit sequence \<open>rnd\<close>; a counter says how many have been
  drawn. Nothing is assumed of the suffixes: two draws may coincide.
\<close>

type_synonym rng = "nat \<Rightarrow> string"

text \<open>What the generators return: \<open>{rounds, type}\<close> and \<open>{type, winners, losers}\<close>.\<close>

record bracket =
  b_rounds :: "match list list"
  b_type :: string

record double_bracket =
  d_type :: string
  d_winners :: "match list list"
  d_losers :: "match list list"

definition uid :: "rng \<Rightarrow> nat \<Rightarrow> string \<Rightarrow> string" where
  "uid rnd k prefix = prefix @ ''_'' @ rnd k"

text \<open>The match literal of the generators: score \<open>[0, 0]\<close>, no winner, no schedule.\<close>

definition new_match :: "string \<Rightarrow> player list \<Rightarrow> match" where
  "new_match i ps =
     \<lparr>mid = i, mplayers = ps, score = [0, 0], winner = Null, scheduledAt = Null,
      m_tournamentId = Undefined\<rparr>"

text \<open>
  The slots of \<open>currentRound\<close>: \<open>{id, players, score: [], winner: null}\<close>, with neither
  a schedule nor a tournament id.
\<close>

definition slot :: "string \<Rightarrow> player list \<Rightarrow> match" where
  "slot i ps =
     \<lparr>mid = i, mplayers = ps, score = [], winner = Null, scheduledAt = Undefined,
      m_tournamentId = Undefined\<rparr>"

text \<open>
  The inner \<open>for\<close> loop of \<open>generateSingleElim\<close>, two slots at a time.
  \<open>players[0]\<close> of a slot is its first player, or \<open>undefined\<close> for an empty slot;
  a missing second slot gives \<open>null\<close>; \<open>filter(Boolean)\<close> keeps the player objects.
\<close>

fun pair_matches :: "rng \<Rightarrow> nat \<Rightarrow> match list \<Rightarrow> match list" where
  "pair_matches rnd k [] = []"
| "pair_matches rnd k [a] = [new_match (uid rnd k ''m'') (take 1 (mplayers a))]"
| "pair_matches rnd k (a # b # rest) =
     new_match (uid rnd k ''m'') (take 1 (mplayers a) @ take 1 (mplayers b))
       # pair_matches rnd (Suc k) rest"

lemma length_pair_matches: "length (pair_matches rnd k cr) = (length cr + 1) div 2"
  by (induction rnd k cr rule: pair_matches.induct) simp_all

text \<open>
  The \<open>while\<close> loop: the matches of a round draw one identifier each, then the empty
  slots of the next round draw one each. The result is the list of rounds and the
  counter after the loop.
\<close>

function elim_rounds :: "rng \<Rightarrow> nat \<Rightarrow> match list \<Rightarrow> match list list \<times> nat" where
  "elim_rounds rnd k currentRound =
     (if length currentRound > 1 then
        let ms = pair_matches rnd k currentRound;
            k1 = k + length ms;
            nextRound = map (\<lambda>i. slot (uid rnd (k1 + i) ''r'') []) [0..<length ms];
            (rest, k2) = elim_rounds rnd (k1 + length ms) nextRound
        in (ms # rest, k2)
      else ([], k))"
  by pat_completeness auto
termination
  by (relation "measure (\<lambda>(rnd, k, cr). length cr)") (auto simp: length_pair_matches)

declare elim_rounds.simps [simp del]

text \<open>A match as the loop allocates it: an id drawn with prefix \<open>m\<close>, and no winner.\<close>

definition fresh_match :: "rng \<Rightarrow> match \<Rightarrow> bool" where
  "fresh_match rnd m = ((\<exists>j. mid m = uid rnd j ''m'') \<and> winner m = Null)"

text \<open>
  \<open>generateSingleElim\<close>. The copy of the players is sorted with a comparator that
  ignores its arguments (\<open>Math.random() - 0.5\<close>); the outcome of that sort is the
  function \<open>sh\<close>, of which the theorems assume only what \<open>Array.prototype.sort\<close>
  guarantees, that it rearranges its input. The returned object is
  \<open>{rounds, type: "single"}\<close>.
\<close>

definition generateSingleElim ::
  "rng \<Rightarrow> (player list \<Rightarrow> player list) \<Rightarrow> nat \<Rightarrow> player list \<Rightarrow> bracket \<times> nat" where
  "generateSingleElim rnd sh k ps =
     (let shuffled = sh ps;
          currentRound = map (\<lambda>(i, p). slot (uid rnd (k + i) ''m'') [p])
                           (zip [0..<length shuffled] shuffled);
          (rs, k') = elim_rounds rnd (k + length shuffled) currentRound
      in (\<lparr>b_rounds = rs, b_type = ''single''\<rparr>, k'))"

text \<open>
  \<open>generateRoundRobin\<close>. \<open>bye\<close> is the synthetic player; \<open>round_pairs\<close> is the inner
  loop, pairing position \<open>i\<close> with position \<open>n - 1 - i\<close> and keeping a pair only when
  both ids are truthy; \<open>rotate_p\<close> is \<open>p.splice(1, 0, p.pop())\<close>. The loop runs it
  on lists of at least two players only; on the empty list, where JavaScript would
  insert \<open>undefined\<close>, the model returns the empty list.
\<close>

definition bye :: player where
  "bye = \<lparr>pid = Null, pname = ''BYE''\<rparr>"

definition round_pairs :: "player list \<Rightarrow> (player \<times> player) list" where
  "round_pairs p =
     (let n = length p in
      concat (map (\<lambda>i. let a = p ! i; b = p ! (n - 1 - i) in
                        if truthy (pid a) \<and> truthy (pid b) then [(a, b)] else [])
                [0..<n div 2]))"

fun mk_matches :: "rng \<Rightarrow> nat \<Rightarrow> (player \<times> player) list \<Rightarrow> match list" where
  "mk_matches rnd k [] = []"
| "mk_matches rnd k ((a, b) # ps) = new_match (uid rnd k ''m'') [a, b] # mk_matches rnd (Suc k) ps"

definition rotate_p :: "player list \<Rightarrow> player list" where
  "rotate_p p =
     (if p = [] then []
      else let l = last p; q = butlast p in take 1 q @ [l] @ drop 1 q)"

fun rr_rounds :: "rng \<Rightarrow> nat \<Rightarrow> nat \<Rightarrow> player list \<Rightarrow> match list list \<times> nat" where
  "rr_rounds rnd k 0 p = ([], k)"
| "rr_rounds rnd k (Suc r) p =
     (let ms = mk_matches rnd k (round_pairs p);
          (rest, k') = rr_rounds rnd (k + length ms) r (rotate_p p)
      in (ms # rest, k'))"

definition generateRoundRobin :: "rng \<Rightarrow> nat \<Rightarrow> player list \<Rightarrow> bracket \<times> nat" where
  "generateRoundRobin rnd k ps =
     (let p = (if length ps mod 2 = 1 then ps @ [bye] else ps);
          n = length p;
          (rs, k') = rr_rounds rnd k (n - 1) p
      in (\<lparr>b_rounds = rs, b_type = ''roundrobin''\<rparr>, k'))"

text \<open>
  \<open>generateDoubleElim\<close>: every match of every winners round is copied with a new
  identifier \<open>uid("l")\<close>, drawn round by round, match by match.
\<close>

fun relabel_round :: "rng \<Rightarrow> nat \<Rightarrow> match list \<Rightarrow> match list" where
  "relabel_round rnd k [] = []"
| "relabel_round rnd k (m # ms) = m\<lparr>mid := uid rnd k ''l''\<rparr> # relabel_round rnd (Suc k) ms"

fun relabel_rounds :: "rng \<Rightarrow> nat \<Rightarrow> match list list \<Rightarrow> match list list" where
  "relabel_rounds rnd k [] = []"
| "relabel_rounds rnd k (r # rs) = relabel_round rnd k r # relabel_rounds rnd (k + length r) rs"

definition generateDoubleElim ::
  "rng \<Rightarrow> (player list \<Rightarrow> player list) \<Rightarrow> nat \<Rightarrow> player list \<Rightarrow> double_bracket \<times> nat" where
  "generateDoubleElim rnd sh k ps =
     (let (single, k1) = generateSingleElim rnd sh k ps;
          ls = relabel_rounds rnd k1 (b_rounds single)
      in (\<lparr>d_type = ''double'', d_winners = b_rounds single, d_losers = ls\<rparr>,
          k1 + length (concat (b_rounds single))))"

section \<open>Tournament lifecycle: create\<close>

record create_args =
  a_title :: string
  a_type :: string
  a_organizerId :: string
  a_players :: "player list"
  a_scheduleMode :: string

definition empty_meta :: meta where
  "empty_meta = \<lparr>mtype = Undefined, rounds = None, winners = None, losers = None\<rparr>"

text \<open>
  \<open>createTournament\<close> returns the new tournament; the stored collection becomes
  \<open>[base, ...s]\<close>. The third component is the counter of the identifier source.
\<close>

definition createTournament ::
  "rng \<Rightarrow> (player list \<Rightarrow> player list) \<Rightarrow> nat \<Rightarrow> string \<Rightarrow> tournament list \<Rightarrow> create_args
     \<Rightarrow> tournament \<times> tournament list \<times> nat" where
  "createTournament rnd sh k now ts args =
     (let i = uid rnd k ''t'';
          base = \<lparr>tid = i, title = a_title args, ttype = a_type args,
                  organizerId = a_organizerId args, players = a_players args, createdAt = now,
                  scheduleMode = a_scheduleMode args, chat = [], adminNotes = [], matches = [],
                  meta = empty_meta\<rparr>;
          (base', k') =
            (if a_type args = ''single'' then
               let (g, k1) = generateSingleElim rnd sh (Suc k) (a_players args);
                   rs = b_rounds g
               in (base\<lparr>matches := map (\<lambda>m. m\<lparr>m_tournamentId := Str i\<rparr>) (concat rs),
                        meta := empty_meta\<lparr>rounds := Some rs\<rparr>\<rparr>, k1)
             else if a_type args = ''roundrobin'' then
               let (g, k1) = generateRoundRobin rnd (Suc k) (a_players args);
                   rs = b_rounds g
               in (base\<lparr>matches := concat rs, meta := empty_meta\<lparr>rounds := Some rs\<rparr>\<rparr>, k1)
             else if a_type args = ''double'' then
               let (d, k1) = generateDoubleElim rnd sh (Suc k) (a_players args)
               in (base\<lparr>matches := concat (d_winners d) @ concat (d_losers d),
                        meta := \<lparr>mtype = Str (d_type d), rounds = None,
                                 winners = Some (d_winners d), losers = Some (d_losers d)\<rparr>\<rparr>, k1)
             else if a_type args = ''league'' then
               let (g, k1) = generateRoundRobin rnd (Suc k) (a_players args);
                   rs = b_rounds g
               in (base\<lparr>matches := concat rs, meta := empty_meta\<lparr>rounds := Some rs\<rparr>\<rparr>, k1)
             else (base, Suc k))
      in (base', base' # ts, k'))"

text \<open>
  The Create button of \<open>NewTournament\<close>. The text area is split at newlines, commas
  and semicolons, each piece is trimmed, empty pieces are dropped, and every name gets
  a player id. A string is the sequence of the bytes of its UTF-8 encoding here, and
  \<open>trim\<close> removes at both ends the white space and the line terminators of ECMAScript
  (tab, line feed, vertical tab, form feed, carriage return, space, no-break space, the
  space separators of Unicode, line and paragraph separator, and the byte order mark),
  each as the bytes that encode it.
  Without a current user the handler only shows an alert. After the creation it opens
  the view of the new tournament, which is no part of this model.
\<close>

fun split_on :: "(char \<Rightarrow> bool) \<Rightarrow> string \<Rightarrow> string list" where
  "split_on sep [] = [[]]"
| "split_on sep (c # cs) =
     (if sep c then [] # split_on sep cs
      else (case split_on sep cs of [] \<Rightarrow> [[c]] | w # ws \<Rightarrow> (c # w) # ws))"

definition white_space :: "string list" where
  "white_space =
     [[CHR 0x09], [CHR 0x0A], [CHR 0x0B], [CHR 0x0C], [CHR 0x0D], [CHR 0x20],
      [CHR 0xC2, CHR 0xA0], [CHR 0xE1, CHR 0x9A, CHR 0x80],
      [CHR 0xE2, CHR 0x80, CHR 0x80], [CHR 0xE2, CHR 0x80, CHR 0x81],
      [CHR 0xE2, CHR 0x80, CHR 0x82], [CHR 0xE2, CHR 0x80, CHR 0x83],
      [CHR 0xE2, CHR 0x80, CHR 0x84], [CHR 0xE2, CHR 0x80, CHR 0x85],
      [CHR 0xE2, CHR 0x80, CHR 0x86], [CHR 0xE2, CHR 0x80, CHR 0x87],
      [CHR 0xE2, CHR 0x80, CHR 0x88], [CHR 0xE2, CHR 0x80, CHR 0x89],
      [CHR 0xE2, CHR 0x80, CHR 0x8A], [CHR 0xE2, CHR 0x80, CHR 0xA8],
      [CHR 0xE2, CHR 0x80, CHR 0xA9], [CHR 0xE2, CHR 0x80, CHR 0xAF],
      [CHR 0xE2, CHR 0x81, CHR 0x9F], [CHR 0xE3, CHR 0x80, CHR 0x80],
      [CHR 0xEF, CHR 0xBB, CHR 0xBF]]"

text \<open>Removes from the front of \<open>s\<close> every leading occurrence of one of the words \<open>ws\<close>.\<close>

function strip_start :: "string list \<Rightarrow> string \<Rightarrow> string" where
  "strip_start ws s =
     (case find (\<lambda>w. w \<noteq> [] \<and> take (length w) s = w) ws of
        None \<Rightarrow> s
      | Some w \<Rightarrow> strip_start ws (drop (length w) s))"
  by pat_completeness auto
termination
proof (relation "measure (\<lambda>(ws, s). length s)")
  show "wf (measure (\<lambda>(ws, s). length s))" by simp
next
  fix ws :: "string list" and s w :: string
  assume "find (\<lambda>w. w \<noteq> [] \<and> take (length w) s = w) ws = Some w"
  then have w: "w \<noteq> []" "take (length w) s = w"
    by (auto simp: find_Some_iff)
  from w(2) have "length (take (length w) s) = length w"
    by simp
  then have "length w \<le> length s"
    by simp
  with w(1) show "((ws, drop (length w) s), (ws, s)) \<in> measure (\<lambda>(ws, s). length s)"
    by (cases w) auto
qed

declare strip_start.simps [simp del]

definition trim :: "string \<Rightarrow> string" where
  "trim s = rev (strip_start (map rev white_space) (rev (strip_start white_space s)))"

definition player_names :: "string \<Rightarrow> string list" where
  "player_names playerText =
     filter (\<lambda>s. s \<noteq> [])
       (map trim (split_on (\<lambda>c. c = CHR 0x0A \<or> c = CHR '','' \<or> c = CHR '';'') playerText))"

record form =
  f_title :: string
  f_type :: string
  f_playerText :: string
  f_scheduleMode :: string

definition onCreate ::
  "rng \<Rightarrow> (player list \<Rightarrow> player list) \<Rightarrow> nat \<Rightarrow> string \<Rightarrow> user option \<Rightarrow> tournament list \<Rightarrow> form
     \<Rightarrow> (tournament \<times> tournament list \<times> nat) option" where
  "onCreate rnd sh k now currentUser ts f =
     (case currentUser of
        None \<Rightarrow> None
      | Some u \<Rightarrow>
          let names = player_names (f_playerText f);
              ps = map (\<lambda>(i, name). \<lparr>pid = Str (uid rnd (k + i) ''p''), pname = name\<rparr>)
                     (zip [0..<length names] names)
          in Some (createTournament rnd sh (k + length names) now ts
                     \<lparr>a_title = (if f_title f = [] then ''Untitled'' else f_title f),
                      a_type = f_type f, a_organizerId = u_id u, a_players = ps,
                      a_scheduleMode = f_scheduleMode f\<rparr>))"

section \<open>Leaderboard\<close>

record entry =
  e_id :: ident
  e_name :: string
  wins :: int
  losses :: int
  points :: int

text \<open>
  The object \<open>players\<close> of \<open>computeLeaderboard\<close>. Its own properties are a list of
  keys and entries: property keys are strings (\<open>players[p.id]\<close> converts the id), and
  the list keeps the order in which the properties were created.
\<close>

type_synonym stats = "(string \<times> entry) list"

text \<open>
  \<open>players\<close> is created by \<open>{}\<close>, so it inherits the properties of
  \<open>Object.prototype\<close>. Under these twelve names (those of ECMAScript and of its annex
  for browsers) \<open>players[k]\<close> is a function, and under \<open>__proto__\<close> the prototype
  itself: an object and truthy, though no entry.
\<close>

definition inherited :: "string \<Rightarrow> bool" where
  "inherited k = (k \<in> set [''constructor'', ''hasOwnProperty'', ''isPrototypeOf'',
     ''propertyIsEnumerable'', ''toLocaleString'', ''toString'', ''valueOf'', ''__proto__'',
     ''__defineGetter__'', ''__defineSetter__'', ''__lookupGetter__'', ''__lookupSetter__''])"

text \<open>
  What \<open>players[k]\<close> reads: the own property if there is one, else the inherited one,
  else \<open>undefined\<close>.
\<close>

datatype property = Own entry | Inherited | Absent

definition get_property :: "stats \<Rightarrow> string \<Rightarrow> property" where
  "get_property obj k =
     (case map_of obj k of
        Some e \<Rightarrow> Own e
      | None \<Rightarrow> if inherited k then Inherited else Absent)"

text \<open>
  \<open>if (!players[p.id]) players[p.id] = {id, name, wins: 0, losses: 0, points: 0}\<close>. A
  player whose id is an inherited name finds the inherited object there, and gets no
  entry.
\<close>

definition register :: "stats \<Rightarrow> player \<Rightarrow> stats" where
  "register obj p =
     (let k = to_string (pid p) in
      case get_property obj k of
        Absent \<Rightarrow> obj @ [(k, \<lparr>e_id = pid p, e_name = pname p, wins = 0, losses = 0, points = 0\<rparr>)]
      | Own e \<Rightarrow> obj
      | Inherited \<Rightarrow> obj)"

text \<open>
  An in-place change of what \<open>players[k]\<close> reads. The entry stored under the key is
  changed; where the key is inherited and not stored, the assignment lands on the
  inherited object (\<open>wins++\<close> leaves \<open>NaN\<close> on the function), which is no property
  of \<open>players\<close>: the object is as before.
\<close>

definition bump :: "string \<Rightarrow> (entry \<Rightarrow> entry) \<Rightarrow> stats \<Rightarrow> stats" where
  "bump k f obj = map (\<lambda>(k', e). if k' = k then (k', f e) else (k', e)) obj"

text \<open>
  The callback of \<open>t.matches.forEach\<close>. Reading \<open>.wins\<close> or \<open>.losses\<close> of
  \<open>undefined\<close> raises a TypeError, which leaves \<open>computeLeaderboard\<close> with no result;
  on an entry and on an inherited object the statement goes through. Writing to
  \<open>Object.prototype\<close> through \<open>players["__proto__"]\<close> gives every object the
  inherited properties \<open>wins\<close>, \<open>losses\<close> and \<open>points\<close> with the value \<open>NaN\<close>. That
  changes no result here: \<open>NaN\<close> is falsy, so a player of such an id is registered as
  before, and \<open>NaN.wins++\<close> raises the TypeError that \<open>undefined.wins++\<close> raises (the
  file is a module, hence strict code).
\<close>

definition process_match :: "stats \<Rightarrow> match \<Rightarrow> error + stats" where
  "process_match obj m =
     (if mplayers m = [] then Inr obj
      else if truthy (winner m) then
        (case get_property obj (to_string (winner m)) of
           Absent \<Rightarrow> Inl TypeError
         | _ \<Rightarrow>
             let obj1 = bump (to_string (winner m)) (\<lambda>e. e\<lparr>wins := wins e + 1\<rparr>) obj in
             (case find (\<lambda>pp. pid pp \<noteq> winner m) (mplayers m) of
                None \<Rightarrow> Inr (bump (to_string (winner m)) (\<lambda>e. e\<lparr>points := points e + 3\<rparr>) obj1)
              | Some loser \<Rightarrow>
                  (case get_property obj1 (to_string (pid loser)) of
                     Absent \<Rightarrow> Inl TypeError
                   | _ \<Rightarrow>
                       Inr (bump (to_string (winner m)) (\<lambda>e. e\<lparr>points := points e + 3\<rparr>)
                              (bump (to_string (pid loser)) (\<lambda>e. e\<lparr>losses := losses e + 1\<rparr>) obj1)))))
      else Inr obj)"

fun run_matches :: "stats \<Rightarrow> match list \<Rightarrow> error + stats" where
  "run_matches obj [] = Inr obj"
| "run_matches obj (m # ms) =
     (case process_match obj m of Inl e \<Rightarrow> Inl e | Inr obj' \<Rightarrow> run_matches obj' ms)"

text \<open>The callback of \<open>tournaments.forEach\<close>: the players first, then the matches.\<close>

fun run_tournaments :: "stats \<Rightarrow> tournament list \<Rightarrow> error + stats" where
  "run_tournaments obj [] = Inr obj"
| "run_tournaments obj (t # ts) =
     (case run_matches (foldl register obj (players t)) (matches t) of
        Inl e \<Rightarrow> Inl e
      | Inr obj' \<Rightarrow> run_tournaments obj' ts)"

text \<open>
  \<open>Object.values\<close> lists the properties whose key is an array index (a canonical
  decimal numeral up to \<open>2\<^sup>3\<^sup>2 - 2\<close>) first, in ascending numeric order, and
  the other properties after them in creation order.
\<close>

definition is_digit :: "char \<Rightarrow> bool" where
  "is_digit c = (48 \<le> (of_char c :: int) \<and> (of_char c :: int) \<le> 57)"

definition digits_value :: "string \<Rightarrow> int" where
  "digits_value s = foldl (\<lambda>acc c. 10 * acc + (of_char c - 48)) 0 s"

definition is_array_index :: "string \<Rightarrow> bool" where
  "is_array_index s =
     (s \<noteq> [] \<and> list_all is_digit s \<and> (s = ''0'' \<or> hd s \<noteq> CHR ''0'')
      \<and> digits_value s \<le> 4294967294)"

definition object_values :: "stats \<Rightarrow> entry list" where
  "object_values obj =
     map snd (sort_key (\<lambda>(k, e). digits_value k) (filter (\<lambda>(k, e). is_array_index k) obj)
              @ filter (\<lambda>(k, e). \<not> is_array_index k) obj)"

text \<open>
  The comparator \<open>(a, b) => b.points - a.points || b.wins - a.wins\<close> and the sort, which
  is stable: an element goes in front of the first one that it does not have to follow.
\<close>

definition cmp :: "entry \<Rightarrow> entry \<Rightarrow> int" where
  "cmp a b = (if points b - points a \<noteq> 0 then points b - points a else wins b - wins a)"

fun insert_cmp :: "entry \<Rightarrow> entry list \<Rightarrow> entry list" where
  "insert_cmp x [] = [x]"
| "insert_cmp x (y # ys) = (if cmp x y \<le> 0 then x # y # ys else y # insert_cmp x ys)"

definition sort_cmp :: "entry list \<Rightarrow> entry list" where
  "sort_cmp xs = foldr insert_cmp xs []"

definition computeLeaderboard :: "tournament list \<Rightarrow> error + entry list" where
  "computeLeaderboard tournaments =
     (case run_tournaments [] tournaments of
        Inl e \<Rightarrow> Inl e
      | Inr obj \<Rightarrow> Inr (sort_cmp (object_values obj)))"

subsection \<open>What the leaderboard counts\<close>

text \<open>
  What \<open>computeLeaderboard\<close> counts. A match is decided when it has a participant and
  a truthy winner; its loser is the first participant whose id differs from the
  winner; it needs the keys of its winner and of its loser, which it looks up.
\<close>

definition decided :: "match \<Rightarrow> bool" where
  "decided m = (mplayers m \<noteq> [] \<and> truthy (winner m))"

definition loser_of :: "match \<Rightarrow> player option" where
  "loser_of m = find (\<lambda>pp. pid pp \<noteq> winner m) (mplayers m)"

definition won_by :: "string \<Rightarrow> match \<Rightarrow> bool" where
  "won_by k m = (decided m \<and> to_string (winner m) = k)"

definition lost_by :: "string \<Rightarrow> match \<Rightarrow> bool" where
  "lost_by k m = (decided m \<and> (case loser_of m of None \<Rightarrow> False | Some l \<Rightarrow> to_string (pid l) = k))"

definition win_count :: "string \<Rightarrow> match list \<Rightarrow> int" where
  "win_count k ms = int (length (filter (won_by k) ms))"

definition loss_count :: "string \<Rightarrow> match list \<Rightarrow> int" where
  "loss_count k ms = int (length (filter (lost_by k) ms))"

text \<open>
  \<open>win_count\<close> and \<open>loss_count\<close> are the wins and losses that a list of matches
  gives to the entry of a key; \<open>add_stats\<close> adds them to a stored entry.
\<close>

definition add_stats :: "match list \<Rightarrow> string \<times> entry \<Rightarrow> string \<times> entry" where
  "add_stats ms ke =
     (fst ke, (snd ke)\<lparr>wins := wins (snd ke) + win_count (fst ke) ms,
                       losses := losses (snd ke) + loss_count (fst ke) ms,
                       points := points (snd ke) + 3 * win_count (fst ke) ms\<rparr>)"

definition all_matches :: "tournament list \<Rightarrow> match list" where
  "all_matches ts = concat (map matches ts)"

definition all_players :: "tournament list \<Rightarrow> player list" where
  "all_players ts = concat (map players ts)"

definition needs :: "match \<Rightarrow> string list" where
  "needs m =
     (if decided m
      then to_string (winner m) # (case loser_of m of None \<Rightarrow> [] | Some l \<Rightarrow> [to_string (pid l)])
      else [])"

text \<open>The entry that registration creates for a player, and its property key.\<close>

definition zero_entry :: "player \<Rightarrow> entry" where
  "zero_entry p = \<lparr>e_id = pid p, e_name = pname p, wins = 0, losses = 0, points = 0\<rparr>"

definition key :: "player \<Rightarrow> string" where
  "key p = to_string (pid p)"

text \<open>
  The keys under which \<open>players[k]\<close> is not \<open>undefined\<close>: the stored and the
  inherited ones.
\<close>

definition defined_keys :: "stats \<Rightarrow> string set" where
  "defined_keys obj = fst ` set obj \<union> {k. inherited k}"

text \<open>
  No lookup reads \<open>undefined\<close>: each match needs only keys that are defined before it,
  inherited or registered by its own tournament or an earlier one (\<open>K\<close> holds the keys
  defined so far).
\<close>

fun lookups_ok :: "string set \<Rightarrow> tournament list \<Rightarrow> bool" where
  "lookups_ok K [] = True"
| "lookups_ok K (t # ts) =
     ((\<forall>m \<in> set (matches t). set (needs m) \<subseteq> K \<union> key ` set (players t))
      \<and> lookups_ok (K \<union> key ` set (players t)) ts)"


section \<open>Well-formed tournaments and registered players\<close>

text \<open>
  Tournaments as the lifecycle builds them: every player id is a string that names no
  inherited property (the ids that \<open>uid("p")\<close> draws begin with \<open>p_\<close>), and a match
  with a winner has one or two participants with distinct ids, one of them the winner.
\<close>

fun is_str :: "ident \<Rightarrow> bool" where
  "is_str (Str s) = True"
| "is_str Null = False"
| "is_str Undefined = False"

fun plain_id :: "ident \<Rightarrow> bool" where
  "plain_id (Str s) = (\<not> inherited s)"
| "plain_id Null = False"
| "plain_id Undefined = False"

definition wf_match :: "match \<Rightarrow> bool" where
  "wf_match m =
     (list_all (\<lambda>p. plain_id (pid p)) (mplayers m) \<and>
      (if winner m = Null then True
       else truthy (winner m) \<and> length (mplayers m) \<in> {1, 2} \<and> distinct (map pid (mplayers m))
            \<and> winner m \<in> set (map pid (mplayers m))))"

definition wf_tournament :: "tournament \<Rightarrow> bool" where
  "wf_tournament t = (list_all (\<lambda>p. plain_id (pid p)) (players t) \<and> list_all wf_match (matches t))"

text \<open>
  A match is registered in \<open>seen\<close> when, having a truthy winner, its winner and all
  its participants are among the ids \<open>seen\<close>. \<open>registered_in_time\<close> asks this of every
  match against the players of its own tournament and of the tournaments before it;
  \<open>registered_somewhere\<close> against the players of all tournaments.
\<close>

definition match_registered :: "ident list \<Rightarrow> match \<Rightarrow> bool" where
  "match_registered seen m =
     (if truthy (winner m)
      then winner m \<in> set seen \<and> list_all (\<lambda>p. pid p \<in> set seen) (mplayers m)
      else True)"

fun registered_in_time :: "ident list \<Rightarrow> tournament list \<Rightarrow> bool" where
  "registered_in_time seen [] = True"
| "registered_in_time seen (t # ts) =
     (list_all (match_registered (seen @ map pid (players t))) (matches t)
      \<and> registered_in_time (seen @ map pid (players t)) ts)"

definition registered_somewhere :: "tournament list \<Rightarrow> bool" where
  "registered_somewhere ts =
     list_all (match_registered (map pid (all_players ts))) (all_matches ts)"

section \<open>Positions in the round-robin rotation\<close>

text \<open>
  Where the player at index \<open>u\<close> of a list of \<open>m + 1\<close> players stands after \<open>r\<close>
  rotations: the anchor at index 0 stays, the others move one place up and from the
  last place to place 1.
\<close>

definition tau :: "nat \<Rightarrow> nat \<Rightarrow> nat \<Rightarrow> nat" where
  "tau m r u = (if u = 0 then 0 else Suc ((u - 1 + r) mod m))"

text \<open>The working copy \<open>p\<close> of \<open>generateRoundRobin\<close>, padded with the BYE player.\<close>

definition padded :: "player list \<Rightarrow> player list" where
  "padded ps = (if length ps mod 2 = 1 then ps @ [bye] else ps)"

section \<open>The two views of a tournament\<close>

definition opt_rounds :: "match list list option \<Rightarrow> match list list" where
  "opt_rounds r = (case r of None \<Rightarrow> [] | Some rs \<Rightarrow> rs)"

text \<open>Every match of the structural view: \<open>meta.rounds\<close>, \<open>meta.winners\<close>, \<open>meta.losers\<close>.\<close>

definition structural :: "tournament \<Rightarrow> match list" where
  "structural t =
     concat (opt_rounds (rounds (meta t))) @ concat (opt_rounds (winners (meta t)))
       @ concat (opt_rounds (losers (meta t)))"

definition match_ids :: "tournament \<Rightarrow> string set" where
  "match_ids t = mid ` set (matches t) \<union> mid ` set (structural t)"

definition same_fields :: "match \<Rightarrow> match \<Rightarrow> bool" where
  "same_fields a b =
     (score a = score b \<and> winner a = winner b \<and> scheduledAt a = scheduledAt b
      \<and> mplayers a = mplayers b)"

text \<open>
  The flat and the structural view agree: two entries with the same match id carry
  the same score, winner, schedule and players.
\<close>

definition views_consistent :: "tournament \<Rightarrow> bool" where
  "views_consistent t =
     list_all (\<lambda>a. list_all (\<lambda>b. if mid a = mid b then same_fields a b else True) (structural t))
       (matches t)"

section \<open>Example data\<close>

definition alice :: player where "alice = \<lparr>pid = Str ''p_a'', pname = ''Alice''\<rparr>"
definition bob :: player where "bob = \<lparr>pid = Str ''p_b'', pname = ''Bob''\<rparr>"
definition carol :: player where "carol = \<lparr>pid = Str ''p_c'', pname = ''Carol''\<rparr>"

definition ex_players :: "player list" where
  "ex_players = [alice, bob, carol]"

definition ex_rnd :: rng where
  "ex_rnd n = replicate (Suc n) (CHR ''z'')"

text \<open>A round-robin tournament of two players, as \<open>createTournament\<close> builds it.\<close>

definition ex_match :: match where
  "ex_match = new_match ''m_1'' [alice, bob]"

definition ex_tournament :: tournament where
  "ex_tournament =
     \<lparr>tid = ''t_1'', title = ''Cup'', ttype = ''roundrobin'', organizerId = ''u_admin'',
      players = [alice, bob], createdAt = ''2025-09-01T12:00:00.000Z'', scheduleMode = ''manual'',
      chat = [], adminNotes = [], matches = [ex_match],
      meta = empty_meta\<lparr>rounds := Some [[ex_match]]\<rparr>\<rparr>"

text \<open>A double-elimination tournament of two players: one winners and one losers match.\<close>

definition ex_double :: tournament where
  "ex_double =
     \<lparr>tid = ''t_2'', title = ''Open'', ttype = ''double'', organizerId = ''u_admin'',
      players = [alice, bob], createdAt = ''2025-09-01T12:00:00.000Z'', scheduleMode = ''manual'',
      chat = [], adminNotes = [],
      matches = [new_match ''m_7'' [alice, bob], new_match ''l_8'' [alice, bob]],
      meta = \<lparr>mtype = Str ''double'', rounds = None,
               winners = Some [[new_match ''m_7'' [alice, bob]]],
               losers = Some [[new_match ''l_8'' [alice, bob]]]\<rparr>\<rparr>"

definition ex_reschedule :: payload where
  "ex_reschedule =
     \<lparr>p_matchIds = Some [''m_1''], p_scheduledAt = Str ''2025-09-02T15:00:00'',
      p_playerId = Undefined\<rparr>"

definition ex_result :: match_update where
  "ex_result = \<lparr>u_score = Some [3, 1], u_winner = Some (Str ''p_a''), u_scheduledAt = None\<rparr>"

text \<open>
  \<open>played\<close> is \<open>ex_tournament\<close> after Alice beat Bob 3-1; \<open>ex_dq\<close> is the collection
  after the organizer then disqualified Alice; \<open>second\<close> is an older tournament of Alice
  and Carol, won by Carol, which the collection (newest first) holds behind the newer
  one; \<open>ex_board\<close> is the leaderboard of \<open>played\<close> and \<open>second\<close>.
  In \<open>ex_outsider\<close> the recorded winner of the match of Alice and Bob is Carol.
\<close>

definition played :: tournament where
  "played = ex_tournament
     \<lparr>matches := [ex_match\<lparr>score := [3, 1], winner := Str ''p_a''\<rparr>],
      meta := empty_meta\<lparr>rounds := Some [[ex_match\<lparr>score := [3, 1], winner := Str ''p_a''\<rparr>]]\<rparr>\<rparr>"

definition ex_dq_payload :: payload where
  "ex_dq_payload = \<lparr>p_matchIds = None, p_scheduledAt = Undefined, p_playerId = Str ''p_a''\<rparr>"

definition ex_dq :: "tournament list" where
  "ex_dq = [played\<lparr>players := [bob],
                   adminNotes := [''Disqualified p_a by u_admin at 2025-09-03T10:00:00.000Z'']\<rparr>]"

definition ex_admin :: user where
  "ex_admin = \<lparr>u_id = ''u_admin'', u_name = ''Organizer'', email = ''org@example.com'',
               pass = ''pass'', admin = True\<rparr>"

definition second :: tournament where
  "second =
     \<lparr>tid = ''t_0'', title = ''Opener'', ttype = ''roundrobin'', organizerId = ''u_admin'',
      players = [alice, carol], createdAt = ''2025-08-20T12:00:00.000Z'', scheduleMode = ''manual'',
      chat = [], adminNotes = [],
      matches = [(new_match ''m_5'' [alice, carol])\<lparr>score := [0, 2], winner := Str ''p_c''\<rparr>],
      meta = empty_meta\<lparr>rounds :=
               Some [[(new_match ''m_5'' [alice, carol])\<lparr>score := [0, 2], winner := Str ''p_c''\<rparr>]]\<rparr>\<rparr>"



definition erin :: player where "erin = \<lparr>pid = Str ''valueOf'', pname = ''Erin''\<rparr>"


definition ex_unlisted :: tournament where
  "ex_unlisted = ex_tournament
     \<lparr>players := [bob],
      matches := [(new_match ''m_1'' [erin, bob])\<lparr>score := [2, 1], winner := Str ''valueOf''\<rparr>],
      meta := empty_meta\<rparr>"

text \<open>A player whose id is the empty string.\<close>

definition anon :: player where
  "anon = \<lparr>pid = Str [], pname = ''Ann''\<rparr>"

section \<open>Properties of the lifecycle updates\<close>

lemma map_result_total:
  "(\<And>x. x \<in> set xs \<Longrightarrow> f x = Inr (g x)) \<Longrightarrow> map_result f xs = Inr (map g xs)"
  by (induction xs) auto

lemma patch_other: "mid m \<noteq> matchId \<Longrightarrow> patch matchId u m = m"
  by (simp add: patch_def)

lemma map_patch_absent: "matchId \<notin> mid ` set ms \<Longrightarrow> map (patch matchId u) ms = ms"
  by (induction ms) (auto simp: patch_def)

lemma map_map_patch_absent:
  "matchId \<notin> mid ` set (concat rs) \<Longrightarrow> map (map (patch matchId u)) rs = rs"
  by (induction rs) (simp_all add: map_patch_absent image_Un)

lemma mid_patch: "mid (patch matchId u m) = mid m"
  by (simp add: patch_def apply_update_def)

lemma tid_updateMatch_t: "tid (updateMatch_t tournamentId matchId u t) = tid t"
  by (simp add: updateMatch_t_def Let_def split: option.splits)

lemma matches_updateMatch_t:
  "matches (updateMatch_t tournamentId matchId u t) =
     (if tid t = tournamentId then map (patch matchId u) (matches t) else matches t)"
  by (simp add: updateMatch_t_def Let_def split: option.splits)

lemma rounds_updateMatch_t:
  "rounds (meta (updateMatch_t tournamentId matchId u t)) =
     (if tid t = tournamentId then map_option (map (map (patch matchId u))) (rounds (meta t))
      else rounds (meta t))"
  by (simp add: updateMatch_t_def Let_def split: option.splits)

lemma updateMatch_t_other: "tid t \<noteq> tournamentId \<Longrightarrow> updateMatch_t tournamentId matchId u t = t"
  by (simp add: updateMatch_t_def)

lemma updateMatch_t_absent:
  "tid t = tournamentId \<Longrightarrow> matchId \<notin> match_ids t \<Longrightarrow> updateMatch_t tournamentId matchId u t = t"
  by (auto simp: updateMatch_t_def match_ids_def structural_def opt_rounds_def Let_def
      map_patch_absent map_map_patch_absent image_Un split: option.splits)

subsection \<open>Winner derivation\<close>

lemma patch_recorded:
  "mid m' = matchId \<Longrightarrow>
   score (patch matchId \<lparr>u_score = Some sc, u_winner = Some w, u_scheduledAt = None\<rparr> m') = sc \<and>
   winner (patch matchId \<lparr>u_score = Some sc, u_winner = Some w, u_scheduledAt = None\<rparr> m') = w"
  by (simp add: patch_def apply_update_def)

lemma setScore_two:
  "mplayers m = [P0, P1] \<Longrightarrow>
   setScore ts t m a b =
     Inr (updateMatch ts (tid t) (mid m)
            \<lparr>u_score = Some [a, b],
             u_winner = Some (if a = b then Null else if a > b then pid P0 else pid P1),
             u_scheduledAt = None\<rparr>)"
  by (simp add: setScore_def Let_def)

text \<open>
  Claim C4. For a two-player match with players \<open>(P0, P1)\<close> and integer scores
  \<open>(a, b)\<close>, \<open>setScore\<close> succeeds, keeps every tournament and every match id in
  place, and every entry of the match in the tournament, in the flat list and in
  \<open>meta.rounds\<close>, then carries score \<open>[a, b]\<close> and the winner: unset (\<open>null\<close>) when
  \<open>a = b\<close>, the id of \<open>P0\<close> when \<open>a > b\<close>, the id of \<open>P1\<close> when \<open>a < b\<close>.
\<close>

theorem setScore_winner:
  assumes "mplayers m = [P0, P1]"
  shows "\<exists>ts'. setScore ts t m a b = Inr ts' \<and>
           map tid ts' = map tid ts \<and>
           map (\<lambda>t'. map mid (matches t')) ts' = map (\<lambda>t'. map mid (matches t')) ts \<and>
           (\<forall>t' \<in> set ts'. tid t' = tid t \<longrightarrow>
              (\<forall>m' \<in> set (matches t'). mid m' = mid m \<longrightarrow>
                 score m' = [a, b] \<and>
                 winner m' = (if a = b then Null else if a > b then pid P0 else pid P1)) \<and>
              (\<forall>rs. rounds (meta t') = Some rs \<longrightarrow>
                 (\<forall>m' \<in> set (concat rs). mid m' = mid m \<longrightarrow>
                    score m' = [a, b] \<and>
                    winner m' = (if a = b then Null else if a > b then pid P0 else pid P1))))"
proof -
  let ?w = "if a = b then Null else if a > b then pid P0 else pid P1"
  let ?u = "\<lparr>u_score = Some [a, b], u_winner = Some ?w, u_scheduledAt = None\<rparr>"
  let ?ts' = "updateMatch ts (tid t) (mid m) ?u"
  have 1: "setScore ts t m a b = Inr ?ts'"
    using assms by (rule setScore_two)
  have 2: "map tid ?ts' = map tid ts"
    by (simp add: updateMatch_def tid_updateMatch_t comp_def)
  have 3: "map (\<lambda>t'. map mid (matches t')) ?ts' = map (\<lambda>t'. map mid (matches t')) ts"
    by (simp add: updateMatch_def matches_updateMatch_t comp_def mid_patch)
  have 4: "score m' = [a, b] \<and> winner m' = ?w"
    if "t' \<in> set ?ts'" "tid t' = tid t" "m' \<in> set (matches t')" "mid m' = mid m" for t' m'
  proof -
    from that(1) obtain t0 where t0: "t0 \<in> set ts" "t' = updateMatch_t (tid t) (mid m) ?u t0"
      by (auto simp: updateMatch_def)
    with that(2) have "tid t0 = tid t" by (simp add: tid_updateMatch_t)
    with t0 that(3) obtain m0 where "m' = patch (mid m) ?u m0"
      by (auto simp: matches_updateMatch_t)
    with that(4) show ?thesis
      using patch_recorded[of m0 "mid m" "[a, b]" ?w] by (simp add: mid_patch)
  qed
  have 5: "score m' = [a, b] \<and> winner m' = ?w"
    if "t' \<in> set ?ts'" "tid t' = tid t" "rounds (meta t') = Some rs" "m' \<in> set (concat rs)"
       "mid m' = mid m" for t' rs m'
  proof -
    from that(1) obtain t0 where t0: "t0 \<in> set ts" "t' = updateMatch_t (tid t) (mid m) ?u t0"
      by (auto simp: updateMatch_def)
    with that(2) have "tid t0 = tid t" by (simp add: tid_updateMatch_t)
    with t0 that(3) obtain rs0 where "rs = map (map (patch (mid m) ?u)) rs0"
      by (auto simp: rounds_updateMatch_t)
    with that(4) obtain m0 where "m' = patch (mid m) ?u m0"
      by auto
    with that(5) show ?thesis
      using patch_recorded[of m0 "mid m" "[a, b]" ?w] by (simp add: mid_patch)
  qed
  from 1 2 3 4 5 show ?thesis by blast
qed

text \<open>
  The scores of the specification's example on the two-player match of
  \<open>ex_tournament\<close>: \<open>(3, 1)\<close> records Alice, \<open>(2, 2)\<close> nobody, \<open>(0, 1)\<close> Bob.
\<close>

theorem setScore_winner_witness:
  "mplayers ex_match = [alice, bob] \<and>
   (\<exists>ts'. setScore [ex_tournament] ex_tournament ex_match 3 1 = Inr ts' \<and>
      map (\<lambda>t'. map winner (matches t')) ts' = [[Str ''p_a'']] \<and>
      map (\<lambda>t'. map score (matches t')) ts' = [[[3, 1]]]) \<and>
   (\<exists>ts'. setScore [ex_tournament] ex_tournament ex_match 2 2 = Inr ts' \<and>
      map (\<lambda>t'. map winner (matches t')) ts' = [[Null]] \<and>
      map (\<lambda>t'. map score (matches t')) ts' = [[[2, 2]]]) \<and>
   (\<exists>ts'. setScore [ex_tournament] ex_tournament ex_match 0 1 = Inr ts' \<and>
      map (\<lambda>t'. map winner (matches t')) ts' = [[Str ''p_b'']] \<and>
      map (\<lambda>t'. map score (matches t')) ts' = [[[0, 1]]])"
proof -
  have h: "mplayers ex_match = [alice, bob]"
    by (simp add: ex_match_def new_match_def)
  have ids: "map tid [ex_tournament] = [''t_1'']"
            "map (\<lambda>t'. map mid (matches t')) [ex_tournament] = [[''m_1'']]"
            "tid ex_tournament = ''t_1''" "mid ex_match = ''m_1''"
            "pid alice = Str ''p_a''" "pid bob = Str ''p_b''"
    by (simp_all add: ex_tournament_def ex_match_def new_match_def alice_def bob_def)
  have one: "\<exists>ts'. setScore [ex_tournament] ex_tournament ex_match a b = Inr ts' \<and>
               map (\<lambda>t'. map winner (matches t')) ts'
                 = [[if a = b then Null else if a > b then Str ''p_a'' else Str ''p_b'']] \<and>
               map (\<lambda>t'. map score (matches t')) ts' = [[[a, b]]]" for a b
  proof -
    define W where "W = (if a = b then Null else if a > b then Str ''p_a'' else Str ''p_b'')"
    note th = setScore_winner[OF h, of "[ex_tournament]" ex_tournament a b, unfolded ids,
        folded W_def]
    then obtain ts' where ts': "setScore [ex_tournament] ex_tournament ex_match a b = Inr ts'"
      "map tid ts' = [''t_1'']" "map (\<lambda>t'. map mid (matches t')) ts' = [[''m_1'']]"
      and all: "\<forall>t' \<in> set ts'. tid t' = ''t_1'' \<longrightarrow>
                 (\<forall>m' \<in> set (matches t'). mid m' = ''m_1'' \<longrightarrow> score m' = [a, b] \<and> winner m' = W)
                 \<and> (\<forall>rs. rounds (meta t') = Some rs \<longrightarrow>
                       (\<forall>m' \<in> set (concat rs). mid m' = ''m_1'' \<longrightarrow>
                          score m' = [a, b] \<and> winner m' = W))"
      by (elim exE conjE)
    have rec: "score m' = [a, b] \<and> winner m' = W"
      if "t' \<in> set ts'" "tid t' = ''t_1''" "m' \<in> set (matches t')" "mid m' = ''m_1''" for t' m'
      using all that by blast
    from ts'(2) obtain t' where t': "ts' = [t']" "tid t' = ''t_1''"
      by (cases ts') auto
    with ts'(3) obtain m' where m': "matches t' = [m']" "mid m' = ''m_1''"
      by (cases "matches t'") auto
    from rec[of t' m'] t' m' have "score m' = [a, b]" "winner m' = W"
      by simp_all
    with ts'(1) t' m' show ?thesis by (simp add: W_def)
  qed
  from one[of 3 1] one[of 2 2] one[of 0 1] h show ?thesis by simp
qed

subsection \<open>Updates that name no stored match\<close>

text \<open>
  Claim C6. \<open>updateMatch\<close> with a tournament id that no stored tournament has, or with
  a match id that occurs nowhere in the tournaments of that id, returns the stored
  collection unchanged. \<open>updateMatch\<close> has no error result: the silent no-op is its
  only answer.
\<close>

theorem updateMatch_missing_noop:
  assumes "tournamentId \<notin> tid ` set ts \<or>
           (\<forall>t \<in> set ts. tid t = tournamentId \<longrightarrow> matchId \<notin> match_ids t)"
  shows "updateMatch ts tournamentId matchId u = ts"
proof -
  have "updateMatch_t tournamentId matchId u t = t" if "t \<in> set ts" for t
    using assms that
    by (cases "tid t = tournamentId") (auto simp: updateMatch_t_absent updateMatch_t_other)
  then show ?thesis
    by (simp add: updateMatch_def map_idI)
qed

theorem updateMatch_missing_noop_witness:
  "''t_9'' \<notin> tid ` set [ex_tournament, ex_double] \<and>
   updateMatch [ex_tournament, ex_double] ''t_9'' ''m_1'' ex_result = [ex_tournament, ex_double] \<and>
   ''m_9'' \<notin> match_ids ex_tournament \<and>
   updateMatch [ex_tournament, ex_double] ''t_1'' ''m_9'' ex_result = [ex_tournament, ex_double]"
proof -
  have a: "''t_9'' \<notin> tid ` set [ex_tournament, ex_double]"
    by (simp add: ex_tournament_def ex_double_def)
  have b: "''m_9'' \<notin> match_ids ex_tournament"
    by (simp add: match_ids_def structural_def opt_rounds_def ex_tournament_def ex_match_def
        new_match_def empty_meta_def)
  have c: "\<forall>t \<in> set [ex_tournament, ex_double]. tid t = ''t_1'' \<longrightarrow> ''m_9'' \<notin> match_ids t"
    using b by (simp add: ex_double_def)
  show ?thesis
    using a b updateMatch_missing_noop[of "''t_9''" "[ex_tournament, ex_double]" "''m_1''" ex_result]
      updateMatch_missing_noop[of "''t_1''" "[ex_tournament, ex_double]" "''m_9''" ex_result] c
    by blast
qed

subsection \<open>Disqualification\<close>

text \<open>
  Claim C7. The disqualify action never fails. In every tournament of the given id it
  removes from \<open>players\<close> the players with the given id, keeping the others in order,
  and appends one audit string to \<open>adminNotes\<close>; the record update shows that no other
  field changes, and in particular the flat matches and the structural view of every
  tournament are the ones stored before, whoever their participants and winners are.
\<close>

theorem disqualify_frame:
  "adminAction ts cu now tournamentId ''disqualify'' pl =
     Inr (map (\<lambda>t. if tid t = tournamentId
                    then t\<lparr>players := filter (\<lambda>p. pid p \<noteq> p_playerId pl) (players t),
                           adminNotes := adminNotes t @ [audit_note (p_playerId pl) cu now]\<rparr>
                    else t) ts) \<and>
   map matches (map (\<lambda>t. if tid t = tournamentId
                    then t\<lparr>players := filter (\<lambda>p. pid p \<noteq> p_playerId pl) (players t),
                           adminNotes := adminNotes t @ [audit_note (p_playerId pl) cu now]\<rparr>
                    else t) ts) = map matches ts \<and>
   map meta (map (\<lambda>t. if tid t = tournamentId
                    then t\<lparr>players := filter (\<lambda>p. pid p \<noteq> p_playerId pl) (players t),
                           adminNotes := adminNotes t @ [audit_note (p_playerId pl) cu now]\<rparr>
                    else t) ts) = map meta ts"
proof -
  have "adminAction ts cu now tournamentId ''disqualify'' pl =
     Inr (map (\<lambda>t. if tid t = tournamentId
                    then t\<lparr>players := filter (\<lambda>p. pid p \<noteq> p_playerId pl) (players t),
                           adminNotes := adminNotes t @ [audit_note (p_playerId pl) cu now]\<rparr>
                    else t) ts)"
    unfolding adminAction_def
    by (rule map_result_total) (simp add: adminAction_t_def)
  moreover have "map (f :: tournament \<Rightarrow> 'b) (map (\<lambda>t. if tid t = tournamentId then g t else t) ts) = map f ts"
    if "\<And>t. f (g t) = f t" for f g
    using that by (induction ts) simp_all
  ultimately show ?thesis by simp
qed

subsection \<open>Creation\<close>

text \<open>
  Claim C9. \<open>createTournament\<close> stores the title it is given; the default is applied
  by its only caller, the Create handler. With a signed-in user, the handler's call of
  \<open>createTournament\<close> returns a tournament, stored in front of the collection, whose
  title is \<open>Untitled\<close> when the title input is empty and the title input otherwise;
  without a user the handler creates nothing.
\<close>

theorem onCreate_title:
  "(\<exists>t k'. onCreate rnd sh k now (Some u) ts f = Some (t, t # ts, k') \<and>
      title t = (if f_title f = [] then ''Untitled'' else f_title f)) \<and>
   onCreate rnd sh k now None ts f = None \<and>
   title (fst (createTournament rnd sh k now ts args)) = a_title args"
  by (auto simp: onCreate_def createTournament_def Let_def split: prod.splits)

subsection \<open>The flat and the structural view\<close>

lemma same_fields_apply_update:
  "same_fields a b \<Longrightarrow> same_fields (apply_update a u) (apply_update b u)"
  by (simp add: same_fields_def apply_update_def split: option.splits)

lemma same_fields_patch:
  "mid a = mid b \<Longrightarrow> same_fields a b \<Longrightarrow> same_fields (patch matchId u a) (patch matchId u b)"
  by (simp add: patch_def same_fields_apply_update)

text \<open>
  Where the structural view is \<open>meta.rounds\<close> alone (the single, round-robin and
  league formats), \<open>updateMatch\<close> patches both views alike and keeps them consistent.
\<close>

lemma updateMatch_t_keeps_views:
  assumes "views_consistent t" "winners (meta t) = None" "losers (meta t) = None"
  shows "views_consistent (updateMatch_t tournamentId matchId u t)"
proof (cases "tid t = tournamentId")
  case False
  with assms(1) show ?thesis by (simp add: updateMatch_t_other)
next
  case True
  let ?t' = "updateMatch_t tournamentId matchId u t"
  have st: "structural ?t' = map (patch matchId u) (structural t)"
    using True assms(2,3)
    by (cases "rounds (meta t)")
       (simp_all add: structural_def opt_rounds_def updateMatch_t_def Let_def map_concat)
  have fl: "matches ?t' = map (patch matchId u) (matches t)"
    using True by (simp add: matches_updateMatch_t)
  from assms(1) have "\<And>a b. a \<in> set (matches t) \<Longrightarrow> b \<in> set (structural t) \<Longrightarrow>
      mid a = mid b \<Longrightarrow> same_fields a b"
    by (auto simp: views_consistent_def list_all_iff split: if_splits)
  then show ?thesis
    unfolding views_consistent_def list_all_iff st fl
    by (auto simp: mid_patch same_fields_patch)
qed

text \<open>
  Claim C1. The reschedule action writes \<open>scheduledAt\<close> into the flat list only, and
  \<open>updateMatch\<close> patches \<open>meta.rounds\<close> but neither \<open>meta.winners\<close> nor
  \<open>meta.losers\<close>. Rescheduling the match of the consistent round-robin tournament
  \<open>ex_tournament\<close> leaves the new time in the flat view and none in its round;
  recording a result for the winners match of the consistent double-elimination
  tournament \<open>ex_double\<close> leaves the winner in the flat view and none in the bracket.
\<close>

theorem views_diverge:
  "views_consistent ex_tournament \<and>
   (\<exists>t'. adminAction [ex_tournament] None ''2025-09-01T13:00:00.000Z'' ''t_1'' ''reschedule''
            ex_reschedule = Inr [t'] \<and>
      map scheduledAt (matches t') = [Str ''2025-09-02T15:00:00''] \<and>
      map mid (matches t') = [''m_1''] \<and>
      map scheduledAt (structural t') = [Null] \<and>
      map mid (structural t') = [''m_1''] \<and>
      \<not> views_consistent t') \<and>
   views_consistent ex_double \<and>
   (\<exists>t'. updateMatch [ex_double] ''t_2'' ''m_7'' ex_result = [t'] \<and>
      map winner (matches t') = [Str ''p_a'', Null] \<and>
      map mid (matches t') = [''m_7'', ''l_8''] \<and>
      map winner (structural t') = [Null, Null] \<and>
      map mid (structural t') = [''m_7'', ''l_8''] \<and>
      \<not> views_consistent t')"
  by (simp add: views_consistent_def structural_def opt_rounds_def same_fields_def
      ex_tournament_def ex_double_def ex_match_def new_match_def empty_meta_def
      adminAction_def adminAction_t_def ex_reschedule_def ex_result_def
      updateMatch_def updateMatch_t_def patch_def apply_update_def Let_def)

section \<open>Properties of the generators\<close>

subsection \<open>Single elimination\<close>

lemma elim_rounds_step:
  "length cr > 1 \<Longrightarrow>
   fst (elim_rounds rnd k cr) =
     pair_matches rnd k cr #
       fst (elim_rounds rnd (k + length (pair_matches rnd k cr) + length (pair_matches rnd k cr))
              (map (\<lambda>i. slot (uid rnd (k + length (pair_matches rnd k cr) + i) ''r'') [])
                 [0..<length (pair_matches rnd k cr)]))"
  by (subst elim_rounds.simps) (simp add: Let_def split: prod.splits)

lemma elim_rounds_stop: "\<not> length cr > 1 \<Longrightarrow> fst (elim_rounds rnd k cr) = []"
  by (subst elim_rounds.simps) simp

lemma elim_rounds_length:
  "length (fst (elim_rounds rnd k cr)) = ceillog2 (length cr)"
proof (induction rnd k cr rule: elim_rounds.induct)
  case (1 rnd k cr)
  show ?case
  proof (cases "length cr > 1")
    case True
    have "length (fst (elim_rounds rnd k cr)) = Suc (ceillog2 ((length cr + 1) div 2))"
      using 1[OF True refl refl refl]
      by (simp add: elim_rounds_step[OF True] length_pair_matches)
    also have "\<dots> = ceillog2 (length cr)"
      using True by (subst (2) ceillog2_rec) simp
    finally show ?thesis .
  next
    case False
    then show ?thesis
      by (simp add: elim_rounds_stop)
  qed
qed

lemma elim_rounds_last:
  "length cr > 1 \<Longrightarrow> length (last (fst (elim_rounds rnd k cr))) = 1"
proof (induction rnd k cr rule: elim_rounds.induct)
  case (1 rnd k cr)
  let ?ms = "pair_matches rnd k cr"
  let ?k1 = "k + length ?ms"
  let ?nxt = "map (\<lambda>i. slot (uid rnd (?k1 + i) ''r'') []) [0..<length ?ms]"
  note unfold = elim_rounds_step[OF "1.prems", of rnd k]
  show ?case
  proof (cases "length ?nxt > 1")
    case True
    have "fst (elim_rounds rnd (?k1 + length ?ms) ?nxt) \<noteq> []"
      by (simp add: elim_rounds_step[OF True])
    moreover have "length (last (fst (elim_rounds rnd (?k1 + length ?ms) ?nxt))) = 1"
      using "1.IH"[OF "1.prems" refl refl refl True] .
    ultimately show ?thesis
      by (simp add: unfold)
  next
    case False
    then have "fst (elim_rounds rnd (?k1 + length ?ms) ?nxt) = []"
      by (rule elim_rounds_stop)
    moreover have "length ?ms = 1"
      using False "1.prems" by (simp add: length_pair_matches)
    ultimately show ?thesis
      by (simp add: unfold)
  qed
qed

lemma generateSingleElim_rounds:
  "b_rounds (fst (generateSingleElim rnd sh k ps)) =
     fst (elim_rounds rnd (k + length (sh ps))
            (map (\<lambda>(i, p). slot (uid rnd (k + i) ''m'') [p]) (zip [0..<length (sh ps)] (sh ps))))"
  by (simp add: generateSingleElim_def Let_def split: prod.splits)

text \<open>
  Claim C2. Whenever the random sort rearranges the \<open>N\<close> players, the single-elimination
  generator returns exactly \<open>\<lceil>log\<^sub>2 (max N 1)\<rceil>\<close> rounds, none at all when \<open>N\<close> is 0 or
  1, and for \<open>N \<ge> 2\<close> its last round holds exactly one match.
\<close>

theorem generateSingleElim_round_count:
  assumes "mset (sh ps) = mset ps"
  shows "length (b_rounds (fst (generateSingleElim rnd sh k ps)))
           = nat \<lceil>log 2 (real (max (length ps) 1))\<rceil> \<and>
         (length ps \<le> 1 \<longrightarrow> b_rounds (fst (generateSingleElim rnd sh k ps)) = []) \<and>
         (2 \<le> length ps \<longrightarrow> length (last (b_rounds (fst (generateSingleElim rnd sh k ps)))) = 1)"
proof -
  let ?cr = "map (\<lambda>(i, p). slot (uid rnd (k + i) ''m'') [p]) (zip [0..<length (sh ps)] (sh ps))"
  have len: "length (sh ps) = length ps"
    using assms by (metis size_mset)
  note rs = generateSingleElim_rounds[of rnd sh k ps]
  have lcr: "length ?cr = length ps"
    by (simp add: len)
  have "length (b_rounds (fst (generateSingleElim rnd sh k ps))) = ceillog2 (length ps)"
    by (simp only: rs elim_rounds_length lcr)
  moreover have "ceillog2 (length ps) = nat \<lceil>log 2 (real (max (length ps) 1))\<rceil>"
    by (cases "length ps = 0") (simp_all add: ceillog2_def max_def)
  moreover have "b_rounds (fst (generateSingleElim rnd sh k ps)) = []" if "length ps \<le> 1"
  proof -
    from that lcr have "\<not> length ?cr > 1" by simp
    then show ?thesis unfolding rs by (rule elim_rounds_stop)
  qed
  moreover have "length (last (b_rounds (fst (generateSingleElim rnd sh k ps)))) = 1"
    if "2 \<le> length ps"
  proof -
    from that lcr have "length ?cr > 1" by simp
    then show ?thesis unfolding rs by (rule elim_rounds_last)
  qed
  ultimately show ?thesis by simp
qed

text \<open>Three players, shuffled by reversal: two rounds, the last of one match.\<close>

theorem generateSingleElim_round_count_witness:
  "mset (rev ex_players) = mset ex_players \<and>
   length (b_rounds (fst (generateSingleElim ex_rnd rev 0 ex_players))) = 2 \<and>
   length (last (b_rounds (fst (generateSingleElim ex_rnd rev 0 ex_players)))) = 1"
proof -
  have h: "mset (rev ex_players) = mset ex_players" by simp
  have l: "length ex_players = 3" by (simp add: ex_players_def)
  have "nat \<lceil>log 2 (real (max (length ex_players) 1))\<rceil> = 2"
    using ceillog2_def[of 3] ceillog2_rec[of 3] ceillog2_rec[of 2] by (simp add: l)
  then show ?thesis
    using generateSingleElim_round_count[of rev ex_players ex_rnd 0] h l by simp
qed

subsection \<open>Double elimination\<close>

lemma pair_matches_fresh: "m \<in> set (pair_matches rnd k cr) \<Longrightarrow> fresh_match rnd m"
  by (induction rnd k cr rule: pair_matches.induct) (auto simp: fresh_match_def new_match_def)

lemma elim_rounds_fresh:
  "m \<in> set (concat (fst (elim_rounds rnd k cr))) \<Longrightarrow> fresh_match rnd m"
proof (induction rnd k cr rule: elim_rounds.induct)
  case (1 rnd k cr)
  show ?case
  proof (cases "length cr > 1")
    case True
    from "1.prems" show ?thesis
      using "1.IH"[OF True refl refl refl] pair_matches_fresh[of m rnd k cr]
      by (auto simp: elim_rounds_step[OF True])
  next
    case False
    with "1.prems" show ?thesis by (simp add: elim_rounds_stop)
  qed
qed

lemma length_relabel_round: "length (relabel_round rnd k r) = length r"
  by (induction r arbitrary: k) simp_all

lemma map_length_relabel_rounds: "map length (relabel_rounds rnd k rs) = map length rs"
  by (induction rs arbitrary: k) (simp_all add: length_relabel_round)

lemma relabel_round_erase:
  "map (\<lambda>m. m\<lparr>mid := x\<rparr>) (relabel_round rnd k r) = map (\<lambda>m. m\<lparr>mid := x\<rparr>) r"
  by (induction r arbitrary: k) simp_all

lemma relabel_rounds_erase:
  "map (map (\<lambda>m. m\<lparr>mid := x\<rparr>)) (relabel_rounds rnd k rs) = map (map (\<lambda>m. m\<lparr>mid := x\<rparr>)) rs"
  by (induction rs arbitrary: k) (simp_all add: relabel_round_erase)

lemma relabel_round_draws:
  "map mid (relabel_round rnd k r) = map (\<lambda>i. uid rnd (k + i) ''l'') [0..<length r]"
proof (induction r arbitrary: k)
  case Nil
  then show ?case by simp
next
  case (Cons m r)
  have "map (\<lambda>i. uid rnd (k + i) ''l'') [0..<Suc (length r)]
          = uid rnd k ''l'' # map (\<lambda>i. uid rnd (Suc k + i) ''l'') [0..<length r]"
    by (simp only: map_upt_Suc) simp
  with Cons.IH[of "Suc k"] show ?case by simp
qed

lemma relabel_rounds_draws:
  "map mid (concat (relabel_rounds rnd k rs))
     = map (\<lambda>i. uid rnd (k + i) ''l'') [0..<length (concat rs)]"
proof (induction rs arbitrary: k)
  case Nil
  then show ?case by simp
next
  case (Cons r rs)
  let ?n = "length (concat rs)"
  have a: "[0..<length r + ?n] = [0..<length r] @ [length r..<length r + ?n]"
    by (rule upt_add_eq_append) simp
  have b: "[length r..<length r + ?n] = map (\<lambda>i. length r + i) [0..<?n]"
    using map_add_upt[of "length r" ?n] by (simp add: add.commute)
  have "map (\<lambda>i. uid rnd (k + i) ''l'') [0..<length (concat (r # rs))]
          = map (\<lambda>i. uid rnd (k + i) ''l'') [0..<length r]
            @ map (\<lambda>i. uid rnd (k + length r + i) ''l'') [0..<?n]"
    by (simp add: a b comp_def add.assoc)
  with Cons.IH[of "k + length r"] show ?case
    by (simp add: relabel_round_draws)
qed

lemma drawn_after:
  assumes "map mid ls = map (\<lambda>i. uid rnd (k + i) ''l'') [0..<n]" "l \<in> set ls"
  shows "\<exists>j\<ge>k. mid l = uid rnd j ''l''"
proof -
  from assms(2) have "mid l \<in> set (map mid ls)" by simp
  then obtain i where "mid l = uid rnd (k + i) ''l''"
    unfolding assms(1) by auto
  then show ?thesis by (intro exI[of _ "k + i"]) simp
qed

lemma relabel_round_winner: "map winner (relabel_round rnd k r) = map winner r"
  by (induction r arbitrary: k) simp_all

lemma relabel_rounds_winner:
  "map winner (concat (relabel_rounds rnd k rs)) = map winner (concat rs)"
  by (induction rs arbitrary: k) (simp_all add: relabel_round_winner)

lemma generateDoubleElim_fields:
  "d_winners (fst (generateDoubleElim rnd sh k ps)) = b_rounds (fst (generateSingleElim rnd sh k ps))"
  "d_losers (fst (generateDoubleElim rnd sh k ps)) =
     relabel_rounds rnd (snd (generateSingleElim rnd sh k ps))
       (b_rounds (fst (generateSingleElim rnd sh k ps)))"
  "snd (generateDoubleElim rnd sh k ps) =
     snd (generateSingleElim rnd sh k ps)
       + length (concat (b_rounds (fst (generateSingleElim rnd sh k ps))))"
  by (simp_all add: generateDoubleElim_def Let_def split: prod.splits)

text \<open>
  Claim C8. The winners bracket of the double-elimination generator is the bracket of
  the single-elimination generator, and the losers bracket has as many rounds and as many
  matches in each round. Every losers match has an id of its own draw: read round by
  round, the ids of the losers matches are the consecutive draws of \<open>uid("l")\<close> that
  follow the last draw of the winners bracket, one draw for each match, and the
  generator has used up just these draws when it returns. No losers match
  shares its id with a winners match (the ids are drawn with the prefixes \<open>l\<close> and
  \<open>m\<close>). Apart from the id, every losers match is the copy of the winners match at its
  place, so its players are taken from no result; and no match of either bracket has a
  winner, so the generator knows no loser to insert.
\<close>

theorem generateDoubleElim_parallel_losers:
  "let d = fst (generateDoubleElim rnd sh k ps) in
     d_winners d = b_rounds (fst (generateSingleElim rnd sh k ps)) \<and>
     length (d_losers d) = length (d_winners d) \<and>
     map length (d_losers d) = map length (d_winners d) \<and>
     map mid (concat (d_losers d))
       = map (\<lambda>i. uid rnd (snd (generateSingleElim rnd sh k ps) + i) ''l'')
           [0..<length (concat (d_winners d))] \<and>
     snd (generateDoubleElim rnd sh k ps)
       = snd (generateSingleElim rnd sh k ps) + length (concat (d_losers d)) \<and>
     (\<forall>l \<in> set (concat (d_losers d)). \<forall>w \<in> set (concat (d_winners d)). mid l \<noteq> mid w) \<and>
     map (map (\<lambda>m. m\<lparr>mid := []\<rparr>)) (d_losers d) = map (map (\<lambda>m. m\<lparr>mid := []\<rparr>)) (d_winners d) \<and>
     (\<forall>m \<in> set (concat (d_winners d) @ concat (d_losers d)). winner m = Null)"
proof -
  let ?ws = "b_rounds (fst (generateSingleElim rnd sh k ps))"
  let ?k1 = "snd (generateSingleElim rnd sh k ps)"
  let ?ls = "relabel_rounds rnd ?k1 ?ws"
  have shape: "map length ?ls = map length ?ws"
    by (rule map_length_relabel_rounds)
  then have len: "length ?ls = length ?ws"
    by (metis length_map)
  have drawn: "map mid (concat ?ls) = map (\<lambda>i. uid rnd (?k1 + i) ''l'') [0..<length (concat ?ws)]"
    by (rule relabel_rounds_draws)
  have "length (map mid (concat ?ls)) = length (concat ?ws)"
    by (simp only: drawn length_map length_upt diff_zero)
  then have used: "?k1 + length (concat ?ws) = ?k1 + length (concat ?ls)"
    by simp
  have w_fresh: "fresh_match rnd w" if "w \<in> set (concat ?ws)" for w
    using that unfolding generateSingleElim_rounds by (rule elim_rounds_fresh)
  have ids: "mid l \<noteq> mid w" if "l \<in> set (concat ?ls)" "w \<in> set (concat ?ws)" for l w
    using drawn_after[OF drawn that(1)] w_fresh[OF that(2)]
    by (auto simp: fresh_match_def uid_def)
  have clone: "map (map (\<lambda>m. m\<lparr>mid := []\<rparr>)) ?ls = map (map (\<lambda>m. m\<lparr>mid := []\<rparr>)) ?ws"
    by (rule relabel_rounds_erase)
  have "winner ` set (concat ?ls) = winner ` set (concat ?ws)"
    by (metis relabel_rounds_winner set_map)
  then have nowin: "winner m = Null" if "m \<in> set (concat ?ws @ concat ?ls)" for m
    using that w_fresh by (fastforce simp: fresh_match_def)
  show ?thesis
    unfolding Let_def generateDoubleElim_fields
    using shape len drawn used ids clone nowin by blast
qed

text \<open>
  Three players: both brackets have a round of two matches and a round of one. The
  winners bracket takes the draws up to the ninth, and the three losers matches carry
  the three draws after it.
\<close>

theorem generateDoubleElim_parallel_losers_witness:
  "map (map mid) (d_winners (fst (generateDoubleElim ex_rnd rev 0 ex_players)))
     = [[''m_zzzz'', ''m_zzzzz''], [''m_zzzzzzzz'']] \<and>
   map length (d_losers (fst (generateDoubleElim ex_rnd rev 0 ex_players))) = [2, 1] \<and>
   map mid (concat (d_losers (fst (generateDoubleElim ex_rnd rev 0 ex_players))))
     = [''l_zzzzzzzzzz'', ''l_zzzzzzzzzzz'', ''l_zzzzzzzzzzzz''] \<and>
   set (map mid (concat (d_losers (fst (generateDoubleElim ex_rnd rev 0 ex_players)))))
     \<inter> set (map mid (concat (d_winners (fst (generateDoubleElim ex_rnd rev 0 ex_players))))) = {}"
proof -
  let ?d = "fst (generateDoubleElim ex_rnd rev 0 ex_players)"
  have w: "map (map mid) (d_winners ?d) = [[''m_zzzz'', ''m_zzzzz''], [''m_zzzzzzzz'']]"
    by code_simp
  then have "map length (map (map mid) (d_winners ?d)) = [2, 1]"
    by simp
  then have wl: "map length (d_winners ?d) = [2, 1]"
    by (simp add: comp_def)
  then have n: "length (concat (d_winners ?d)) = 3"
    by (simp add: length_concat)
  have k1: "snd (generateSingleElim ex_rnd rev 0 ex_players) = 9"
    by code_simp
  have draws: "map (\<lambda>i. uid ex_rnd (9 + i) ''l'') [0..<3]
                 = [''l_zzzzzzzzzz'', ''l_zzzzzzzzzzz'', ''l_zzzzzzzzzzzz'']"
    by code_simp
  note th = generateDoubleElim_parallel_losers[of ex_rnd rev 0 ex_players, unfolded Let_def]
  from th have "map length (d_losers ?d) = map length (d_winners ?d)"
    by (elim conjE)
  moreover from th have "map mid (concat (d_losers ?d))
       = map (\<lambda>i. uid ex_rnd (snd (generateSingleElim ex_rnd rev 0 ex_players) + i) ''l'')
           [0..<length (concat (d_winners ?d))]"
    by (elim conjE)
  then have "map mid (concat (d_losers ?d)) = [''l_zzzzzzzzzz'', ''l_zzzzzzzzzzz'', ''l_zzzzzzzzzzzz'']"
    by (simp only: k1 n draws)
  moreover from th have "\<forall>l \<in> set (concat (d_losers ?d)). \<forall>w \<in> set (concat (d_winners ?d)). mid l \<noteq> mid w"
    by (elim conjE) assumption
  then have "set (map mid (concat (d_losers ?d))) \<inter> set (map mid (concat (d_winners ?d))) = {}"
    by auto
  ultimately show ?thesis
    using w wl by simp
qed

section \<open>Properties of the leaderboard\<close>

subsection \<open>One match, one tournament, all tournaments\<close>

text \<open>
  A decided match either reads \<open>undefined\<close> at a lookup, or adds its win and its loss
  to the stored entries and leaves the keys alone. So a run that succeeds maps every
  stored entry by \<open>add_stats\<close>, and gives nothing to keys that were not defined
  before it.
\<close>

lemma fst_add_stats [simp]: "fst (add_stats ms ke) = fst ke"
  by (simp add: add_stats_def)

lemma map_fst_add_stats [simp]: "map fst (map (add_stats ms) obj) = map fst obj"
  by (simp add: comp_def)

lemma map_fst_bump [simp]: "map fst (bump k f obj) = map fst obj"
  by (induction obj) (auto simp: bump_def)

lemma map_of_bump_None: "map_of (bump k f obj) k' = None \<longleftrightarrow> k' \<notin> fst ` set obj"
  by (metis map_fst_bump map_of_eq_None_iff set_map)

lemma fst_set_bump [simp]: "fst ` set (bump k f obj) = fst ` set obj"
  by (metis map_fst_bump set_map)

lemma defined_keys_cong: "map fst obj' = map fst obj \<Longrightarrow> defined_keys obj' = defined_keys obj"
  unfolding defined_keys_def by (metis set_map)

lemma defined_keys_bump [simp]: "defined_keys (bump k f obj) = defined_keys obj"
  by (simp add: defined_keys_def)

lemma get_property_Absent: "get_property obj k = Absent \<longleftrightarrow> k \<notin> defined_keys obj"
  by (auto simp: get_property_def defined_keys_def map_of_eq_None_iff[symmetric]
      split: option.splits)

lemma property_case_Absent:
  "(case q of Own e \<Rightarrow> y | Inherited \<Rightarrow> y | Absent \<Rightarrow> x) = (if q = Absent then x else y)"
  by (cases q) simp_all

lemma add_stats_Nil [simp]: "add_stats [] ke = ke"
  by (simp add: add_stats_def win_count_def loss_count_def)

lemma add_stats_append: "add_stats (ms @ ms') ke = add_stats ms' (add_stats ms ke)"
  by (simp add: add_stats_def win_count_def loss_count_def algebra_simps)

lemma add_stats_undecided: "\<not> decided m \<Longrightarrow> add_stats [m] ke = ke"
  by (simp add: add_stats_def win_count_def loss_count_def won_by_def lost_by_def)

lemma map_add_stats_undecided: "\<not> decided m \<Longrightarrow> map (add_stats [m]) obj = obj"
  by (simp add: add_stats_undecided map_idI)

lemma process_match_undecided: "\<not> decided m \<Longrightarrow> process_match obj m = Inr obj"
  by (auto simp: process_match_def decided_def)

lemma process_match_decided:
  assumes "decided m"
  shows "process_match obj m =
     (if to_string (winner m) \<in> defined_keys obj \<and>
         (\<forall>l. loser_of m = Some l \<longrightarrow> to_string (pid l) \<in> defined_keys obj)
      then Inr (map (add_stats [m]) obj) else Inl TypeError)"
proof -
  let ?w = "to_string (winner m)"
  show ?thesis
  proof (cases "loser_of m")
    case None
    have "bump ?w (\<lambda>e. e\<lparr>points := points e + 3\<rparr>) (bump ?w (\<lambda>e. e\<lparr>wins := wins e + 1\<rparr>) obj)
            = map (add_stats [m]) obj"
      using assms None
      by (auto simp: bump_def add_stats_def win_count_def loss_count_def won_by_def lost_by_def)
    then show ?thesis
      using assms None
      by (auto simp: process_match_def decided_def loser_of_def Let_def property_case_Absent
          get_property_Absent)
  next
    case (Some l)
    let ?l = "to_string (pid l)"
    have "bump ?w (\<lambda>e. e\<lparr>points := points e + 3\<rparr>)
            (bump ?l (\<lambda>e. e\<lparr>losses := losses e + 1\<rparr>) (bump ?w (\<lambda>e. e\<lparr>wins := wins e + 1\<rparr>) obj))
            = map (add_stats [m]) obj"
      using assms Some
      by (auto simp: bump_def add_stats_def win_count_def loss_count_def won_by_def lost_by_def)
    then show ?thesis
      using assms Some
      by (auto simp: process_match_def decided_def loser_of_def Let_def property_case_Absent
          get_property_Absent)
  qed
qed

lemma process_match_keys:
  "process_match obj m = Inr obj' \<Longrightarrow> map fst obj' = map fst obj"
  by (cases "decided m") (auto simp: process_match_decided process_match_undecided split: if_splits)

lemma process_match_result:
  "process_match obj m = Inr obj' \<Longrightarrow> obj' = map (add_stats [m]) obj"
  by (cases "decided m")
     (auto simp: process_match_decided process_match_undecided map_add_stats_undecided split: if_splits)


lemma process_match_ok_iff:
  "(\<exists>obj'. process_match obj m = Inr obj') \<longleftrightarrow> set (needs m) \<subseteq> defined_keys obj"
  by (cases "decided m")
     (auto simp: process_match_decided process_match_undecided needs_def split: option.splits)

lemma run_matches_result:
  "run_matches obj ms = Inr obj' \<Longrightarrow> obj' = map (add_stats ms) obj"
proof (induction ms arbitrary: obj)
  case Nil
  then show ?case by (simp add: map_idI)
next
  case (Cons m ms)
  from Cons.prems obtain obj1 where 1: "process_match obj m = Inr obj1"
    and 2: "run_matches obj1 ms = Inr obj'"
    by (auto split: sum.splits)
  have "obj' = map (add_stats ms) (map (add_stats [m]) obj)"
    using Cons.IH[OF 2] process_match_result[OF 1] by simp
  also have "\<dots> = map (add_stats (m # ms)) obj"
    using add_stats_append[of "[m]" ms] by (simp add: comp_def)
  finally show ?case .
qed


lemma run_matches_ok_iff:
  "(\<exists>obj'. run_matches obj ms = Inr obj') \<longleftrightarrow> (\<forall>m \<in> set ms. set (needs m) \<subseteq> defined_keys obj)"
proof (induction ms arbitrary: obj)
  case Nil
  then show ?case by simp
next
  case (Cons m ms)
  show ?case
  proof (cases "process_match obj m")
    case (Inl e)
    then have "\<not> set (needs m) \<subseteq> defined_keys obj"
      using process_match_ok_iff[of obj m] by simp
    with Inl show ?thesis by simp
  next
    case (Inr obj1)
    then have "set (needs m) \<subseteq> defined_keys obj"
      using process_match_ok_iff[of obj m] by auto
    moreover have "defined_keys obj1 = defined_keys obj"
      using process_match_keys[OF Inr] by (rule defined_keys_cong)
    ultimately show ?thesis
      using Inr Cons.IH[of obj1] by simp
  qed
qed

text \<open>
  Registration appends zero entries for keys that are not defined. It commutes with
  \<open>add_stats\<close> of matches that ran before it, since those give nothing to keys
  registered later; hence the closed form \<open>run_tournaments_result\<close> of a successful run.
\<close>

lemma register_alt:
  "register obj p = (if key p \<in> defined_keys obj then obj else obj @ [(key p, zero_entry p)])"
  by (cases "get_property obj (key p)")
     (auto simp: register_def key_def zero_entry_def Let_def get_property_Absent[symmetric])

lemma keys_register: "defined_keys (register obj p) = insert (key p) (defined_keys obj)"
  by (auto simp: register_alt) (auto simp: defined_keys_def)

lemma keys_foldl_register:
  "defined_keys (foldl register obj ps) = defined_keys obj \<union> key ` set ps"
  by (induction ps arbitrary: obj) (auto simp: keys_register)






lemma run_matches_keys:
  assumes "run_matches obj ms = Inr obj'"
  shows "defined_keys obj' = defined_keys obj"
proof -
  have "map fst obj' = map fst obj"
    using run_matches_result[OF assms] by simp
  then show ?thesis by (rule defined_keys_cong)
qed

lemma run_tournaments_ok_iff:
  "(\<exists>obj'. run_tournaments obj ts = Inr obj') \<longleftrightarrow> lookups_ok (defined_keys obj) ts"
proof (induction ts arbitrary: obj)
  case Nil
  then show ?case by simp
next
  case (Cons t ts)
  let ?obj1 = "foldl register obj (players t)"
  have k1: "defined_keys ?obj1 = defined_keys obj \<union> key ` set (players t)"
    by (rule keys_foldl_register)
  show ?case
  proof (cases "run_matches ?obj1 (matches t)")
    case (Inl e)
    then have "\<not> (\<forall>m \<in> set (matches t). set (needs m) \<subseteq> defined_keys ?obj1)"
      using run_matches_ok_iff[of ?obj1 "matches t"] by simp
    with Inl show ?thesis by (simp add: k1)
  next
    case (Inr obj2)
    then have "\<forall>m \<in> set (matches t). set (needs m) \<subseteq> defined_keys ?obj1"
      using run_matches_ok_iff[of ?obj1 "matches t"] by blast
    moreover have "defined_keys obj2 = defined_keys ?obj1"
      using Inr by (rule run_matches_keys)
    ultimately show ?thesis
      using Inr Cons.IH[of obj2] by (simp add: k1)
  qed
qed

subsection \<open>Sorting and enumeration\<close>















subsection \<open>Well-formed matches\<close>

text \<open>
  For a well-formed match, a win of key \<open>k\<close> is a match whose winner is the string
  \<open>k\<close>, and a loss of key \<open>k\<close> is a match in which the player \<open>k\<close> took part and
  another participant won.
\<close>

lemma match_registered_iff:
  "match_registered seen m \<longleftrightarrow>
     (truthy (winner m) \<longrightarrow> winner m \<in> set seen \<and> (\<forall>p \<in> set (mplayers m). pid p \<in> set seen))"
  by (simp add: match_registered_def list_all_iff)

lemma is_str_iff: "is_str i \<longleftrightarrow> (\<exists>s. i = Str s)"
  by (cases i) auto

lemma plain_id_is_str: "plain_id i \<Longrightarrow> is_str i"
  by (cases i) auto

lemma plain_id_key: "plain_id i \<Longrightarrow> \<not> inherited (to_string i)"
  by (cases i) auto


lemma is_str_to_string: "is_str i \<Longrightarrow> Str (to_string i) = i"
  by (cases i) auto










subsection \<open>The examples, evaluated\<close>

lemma ex_played: "updateMatch [ex_tournament] ''t_1'' ''m_1'' ex_result = [played]"
  by (simp add: updateMatch_def updateMatch_t_def ex_tournament_def played_def ex_match_def
      new_match_def ex_result_def patch_def apply_update_def empty_meta_def Let_def)

lemma ex_disqualified:
  "adminAction [played] (Some ex_admin) ''2025-09-03T10:00:00.000Z'' ''t_1'' ''disqualify''
     ex_dq_payload = Inr ex_dq"
  by (simp add: adminAction_def adminAction_t_def played_def ex_tournament_def ex_dq_def
      ex_dq_payload_def audit_note_def ex_admin_def alice_def bob_def)

lemma ex_dq_TypeError: "computeLeaderboard ex_dq = Inl TypeError"
  by code_simp

lemma ex_cross_eval: "registered_somewhere (ex_dq @ [second]) \<and>
   computeLeaderboard (ex_dq @ [second]) = Inl TypeError"
  by code_simp

lemma ex_wf: "list_all wf_tournament [played, second]"
  by code_simp



lemma ex_unlisted_board:
  "\<not> registered_somewhere [ex_unlisted] \<and>
   computeLeaderboard [ex_unlisted] =
     Inr [\<lparr>e_id = Str ''p_b'', e_name = ''Bob'', wins = 0, losses = 1, points = 0\<rparr>]"
  by code_simp

lemma ex_in_time: "registered_in_time [] [played, second] \<and> \<not> registered_in_time [] ex_dq"
  by code_simp

subsection \<open>When every lookup succeeds\<close>

lemma needs_subset:
  assumes "truthy (winner m) \<Longrightarrow> winner m \<in> S \<and> (\<forall>p \<in> set (mplayers m). pid p \<in> S)"
  shows "set (needs m) \<subseteq> to_string ` S"
proof (cases "decided m")
  case False
  then show ?thesis by (simp add: needs_def)
next
  case True
  then have w: "winner m \<in> S" and ps: "\<forall>p \<in> set (mplayers m). pid p \<in> S"
    using assms by (auto simp: decided_def)
  have "to_string (pid l) \<in> to_string ` S" if "loser_of m = Some l" for l
  proof -
    from that have "l \<in> set (mplayers m)"
      by (auto simp: loser_of_def find_Some_iff)
    with ps show ?thesis by blast
  qed
  with w True show ?thesis
    by (auto simp: needs_def split: option.splits)
qed

lemma registered_in_time_sufficient:
  "registered_in_time seen ts \<Longrightarrow> to_string ` set seen \<subseteq> K \<Longrightarrow> lookups_ok K ts"
proof (induction ts arbitrary: seen K)
  case Nil
  then show ?case by simp
next
  case (Cons t ts)
  let ?seen' = "seen @ map pid (players t)"
  have sub: "to_string ` set ?seen' \<subseteq> K \<union> key ` set (players t)"
    using Cons.prems(2) by (auto simp: key_def)
  have "set (needs m) \<subseteq> K \<union> key ` set (players t)" if "m \<in> set (matches t)" for m
  proof -
    from Cons.prems(1) that have "match_registered ?seen' m"
      by (simp add: list_all_iff)
    then have "truthy (winner m) \<Longrightarrow>
            winner m \<in> set ?seen' \<and> (\<forall>p \<in> set (mplayers m). pid p \<in> set ?seen')"
      by (simp add: match_registered_iff)
    then have "set (needs m) \<subseteq> to_string ` set ?seen'"
      by (rule needs_subset)
    with sub show ?thesis by blast
  qed
  moreover have "lookups_ok (K \<union> key ` set (players t)) ts"
    using Cons.prems(1) sub by (intro Cons.IH[of ?seen']) simp_all
  ultimately show ?case by simp
qed

lemma key_in_seen:
  assumes "list_all (\<lambda>i. is_str i) seen" "to_string (Str s) \<in> to_string ` set seen"
  shows "Str s \<in> set seen"
proof -
  from assms(2) obtain i where i: "i \<in> set seen" "to_string i = s" by auto
  with assms(1) have "is_str i" by (simp add: list_all_iff)
  with i show ?thesis using is_str_to_string[of i] by simp
qed

lemma wf_needs:
  assumes "wf_match m" "truthy (winner m)" "set (needs m) \<subseteq> to_string ` set seen"
    "list_all (\<lambda>i. is_str i) seen"
  shows "winner m \<in> set seen \<and> (\<forall>p \<in> set (mplayers m). pid p \<in> set seen)"
proof -
  from assms(1,2) have w: "winner m \<in> pid ` set (mplayers m)"
    "distinct (map pid (mplayers m))" "\<forall>q \<in> set (mplayers m). is_str (pid q)"
    and len: "length (mplayers m) = 1 \<or> length (mplayers m) = 2"
    by (auto simp: wf_match_def list_all_iff plain_id_is_str split: if_splits)
  from len have dec: "decided m"
    using assms(2) by (auto simp: decided_def)
  from assms(2) obtain sw where sw: "winner m = Str sw"
    by (cases "winner m") auto
  have win: "winner m \<in> set seen"
    using assms(3,4) dec unfolding sw by (intro key_in_seen) (auto simp: needs_def sw)
  from len consider a where "mplayers m = [a]" | a b where "mplayers m = [a, b]"
    by (auto simp: length_Suc_conv numeral_2_eq_2)
  then show ?thesis
  proof cases
    case 1
    with w(1) win show ?thesis by simp
  next
    case 2
    with w(3) obtain sa sb where ids: "pid a = Str sa" "pid b = Str sb"
      by (auto simp: is_str_iff)
    with w(2) 2 have ne: "sa \<noteq> sb" by simp
    from w(1) 2 ids consider "winner m = Str sa" | "winner m = Str sb" by auto
    then show ?thesis
    proof cases
      case 1
      then have "loser_of m = Some b"
        using ne by (simp add: loser_of_def 2 ids)
      with dec assms(3) have "to_string (Str sb) \<in> to_string ` set seen"
        by (simp add: needs_def ids)
      then have "Str sb \<in> set seen" by (rule key_in_seen[OF assms(4)])
      with win 1 2 ids show ?thesis by simp
    next
      case 2
      then have "loser_of m = Some a"
        using ne by (simp add: loser_of_def \<open>mplayers m = [a, b]\<close> ids)
      with dec assms(3) have "to_string (Str sa) \<in> to_string ` set seen"
        by (simp add: needs_def ids)
      then have "Str sa \<in> set seen" by (rule key_in_seen[OF assms(4)])
      with win 2 \<open>mplayers m = [a, b]\<close> ids show ?thesis by simp
    qed
  qed
qed

text \<open>A well-formed match needs no inherited key.\<close>

lemma wf_needs_plain:
  assumes "wf_match m" "k \<in> set (needs m)"
  shows "\<not> inherited k"
proof -
  from assms(2) have dec: "decided m"
    by (auto simp: needs_def split: if_splits)
  then have "winner m \<noteq> Null"
    by (auto simp: decided_def)
  with assms(1) have w: "winner m \<in> pid ` set (mplayers m)"
    and plain: "\<forall>q \<in> set (mplayers m). plain_id (pid q)"
    by (auto simp: wf_match_def list_all_iff)
  from assms(2) dec have "k = to_string (winner m)
      \<or> (\<exists>l. loser_of m = Some l \<and> k = to_string (pid l))"
    by (cases "loser_of m") (auto simp: needs_def)
  then consider "k = to_string (winner m)"
    | l where "loser_of m = Some l" "k = to_string (pid l)"
    by blast
  then show ?thesis
  proof cases
    case 1
    with w plain show ?thesis by (auto simp: plain_id_key)
  next
    case 2
    then have "l \<in> set (mplayers m)"
      by (auto simp: loser_of_def find_Some_iff)
    with 2 plain show ?thesis by (auto simp: plain_id_key)
  qed
qed

lemma registered_in_time_necessary:
  "lookups_ok (to_string ` set seen \<union> {k. inherited k}) ts \<Longrightarrow> \<forall>t \<in> set ts. wf_tournament t \<Longrightarrow>
   list_all (\<lambda>i. is_str i) seen \<Longrightarrow> registered_in_time seen ts"
proof (induction ts arbitrary: seen)
  case Nil
  then show ?case by simp
next
  case (Cons t ts)
  let ?seen' = "seen @ map pid (players t)"
  have K: "to_string ` set seen \<union> {k. inherited k} \<union> key ` set (players t)
             = to_string ` set ?seen' \<union> {k. inherited k}"
    by (auto simp: key_def)
  have str: "list_all (\<lambda>i. is_str i) ?seen'"
    using Cons.prems(2,3) by (auto simp: wf_tournament_def list_all_iff plain_id_is_str)
  have "winner m \<in> set ?seen' \<and> (\<forall>p \<in> set (mplayers m). pid p \<in> set ?seen')"
    if "m \<in> set (matches t)" "truthy (winner m)" for m
  proof (rule wf_needs)
    show wf: "wf_match m"
      using that(1) Cons.prems(2) by (auto simp: wf_tournament_def list_all_iff)
    show "truthy (winner m)" by fact
    have "set (needs m) \<subseteq> to_string ` set ?seen' \<union> {k. inherited k}"
      using Cons.prems(1) that(1) unfolding K[symmetric] by simp
    then show "set (needs m) \<subseteq> to_string ` set ?seen'"
      using wf_needs_plain[OF wf] by blast
    show "list_all (\<lambda>i. is_str i) ?seen'" by fact
  qed
  moreover have "registered_in_time ?seen' ts"
    using Cons.prems(1,2) str unfolding K[symmetric]
    by (intro Cons.IH) (simp_all add: K)
  ultimately show ?case
    by (simp add: list_all_iff match_registered_iff)
qed

lemma computeLeaderboard_ok_iff:
  "(\<exists>board. computeLeaderboard ts = Inr board) \<longleftrightarrow> lookups_ok {k. inherited k} ts"
  using run_tournaments_ok_iff[of "[]" ts]
  by (auto simp: computeLeaderboard_def defined_keys_def split: sum.splits)






text \<open>
  Claim C10, as amended. \<open>computeLeaderboard\<close> returns whenever every match with a
  recorded winner has its winner and its participants in the player list of its own
  tournament or of a tournament earlier in the sequence; for tournaments as the
  lifecycle builds them (the ids of players and participants are strings that name no
  property inherited from \<open>Object.prototype\<close>; a match with a winner has one or two
  participants with distinct ids, one of them the winner) it returns only then; and the
  error is reached: after the disqualification of Alice, the winner of a recorded
  match, the lookup of her entry raises the TypeError.
\<close>

theorem computeLeaderboard_total:
  "(registered_in_time [] ts \<longrightarrow> (\<exists>board. computeLeaderboard ts = Inr board)) \<and>
   ((\<forall>t \<in> set ts. wf_tournament t) \<and> (\<exists>board. computeLeaderboard ts = Inr board)
      \<longrightarrow> registered_in_time [] ts) \<and>
   adminAction [played] (Some ex_admin) ''2025-09-03T10:00:00.000Z'' ''t_1'' ''disqualify''
     ex_dq_payload = Inr ex_dq \<and>
   \<not> registered_in_time [] ex_dq \<and>
   computeLeaderboard ex_dq = Inl TypeError"
proof -
  have "\<exists>board. computeLeaderboard ts = Inr board" if "registered_in_time [] ts"
    using registered_in_time_sufficient[OF that, of "{k. inherited k}"]
    by (simp add: computeLeaderboard_ok_iff)
  moreover have "registered_in_time [] ts"
    if "\<forall>t \<in> set ts. wf_tournament t" "\<exists>board. computeLeaderboard ts = Inr board"
    using registered_in_time_necessary[of "[]" ts] that by (simp add: computeLeaderboard_ok_iff)
  ultimately show ?thesis
    using ex_disqualified ex_dq_TypeError ex_in_time by blast
qed

theorem computeLeaderboard_total_witness:
  "registered_in_time [] [played, second] \<and>
   list_all wf_tournament [played, second] \<and>
   (\<exists>board. computeLeaderboard [played, second] = Inr board)"
  using computeLeaderboard_total[of "[played, second]"] ex_in_time ex_wf by blast

text \<open>
  The claim as stated fails in both directions. In \<open>ex_dq @ [second]\<close> every winner and
  every participant is in some tournament's player list (Alice in that of the second
  tournament), yet the match of the first tournament is read before Alice is
  registered, and the lookup misses. And in \<open>ex_unlisted\<close> the winner, whose id is
  \<open>valueOf\<close>, is in no player list, yet the lookup finds the inherited function, and
  \<open>computeLeaderboard\<close> returns a board.
\<close>

theorem computeLeaderboard_total_counterexample:
  "registered_somewhere (ex_dq @ [second]) \<and>
   computeLeaderboard (ex_dq @ [second]) = Inl TypeError \<and>
   \<not> registered_somewhere [ex_unlisted] \<and>
   computeLeaderboard [ex_unlisted] =
     Inr [\<lparr>e_id = Str ''p_b'', e_name = ''Bob'', wins = 0, losses = 1, points = 0\<rparr>]"
  using ex_cross_eval ex_unlisted_board by simp

section \<open>Properties of the round-robin generator\<close>

subsection \<open>The rounds as lists of pairs\<close>

text \<open>
  The players of the matches of round \<open>j\<close> are the pairs that \<open>round_pairs\<close> takes from
  the list rotated \<open>j\<close> times.
\<close>

lemma concat_map_if:
  "concat (map (\<lambda>i. if C i then [f i] else []) xs) = map f (filter C xs)"
  by (induction xs) simp_all

lemma round_pairs_alt:
  "round_pairs p =
     map (\<lambda>i. (p ! i, p ! (length p - 1 - i)))
       (filter (\<lambda>i. truthy (pid (p ! i)) \<and> truthy (pid (p ! (length p - 1 - i))))
          [0..<length p div 2])"
  by (simp add: round_pairs_def Let_def concat_map_if)

lemma mplayers_mk_matches:
  "map mplayers (mk_matches rnd k prs) = map (\<lambda>(a, b). [a, b]) prs"
  by (induction rnd k prs rule: mk_matches.induct) (simp_all add: new_match_def)

lemma rr_rounds_Suc:
  "fst (rr_rounds rnd k (Suc r) p) =
     mk_matches rnd k (round_pairs p)
       # fst (rr_rounds rnd (k + length (mk_matches rnd k (round_pairs p))) r (rotate_p p))"
  by (simp add: Let_def split: prod.splits)

lemma rr_rounds_players:
  "map (map mplayers) (fst (rr_rounds rnd k r p)) =
     map (\<lambda>j. map (\<lambda>(a, b). [a, b]) (round_pairs ((rotate_p ^^ j) p))) [0..<r]"
proof (induction r arbitrary: k p)
  case 0
  then show ?case by simp
next
  case (Suc r)
  show ?case
    unfolding map_upt_Suc rr_rounds_Suc
    by (simp add: Suc mplayers_mk_matches funpow_swap1 del: rr_rounds.simps)
qed

subsection \<open>Rotation\<close>

text \<open>
  A rotation rearranges the list, and after \<open>r\<close> rotations the player of index \<open>u\<close>
  stands at position \<open>tau m r u\<close>.
\<close>

lemma length_rotate_p [simp]: "length (rotate_p q) = length q"
  by (cases q rule: rev_cases) (auto simp: rotate_p_def Let_def)

lemma mset_rotate_p [simp]: "mset (rotate_p q) = mset q"
proof (cases q rule: rev_cases)
  case Nil
  then show ?thesis by (simp add: rotate_p_def)
next
  case (snoc ys y)
  have "mset (take 1 ys) + mset (drop 1 ys) = mset ys"
    by (metis append_take_drop_id mset_append)
  then show ?thesis
    by (simp add: snoc rotate_p_def Let_def)
qed

lemma rotate_p_nth_0: "length q \<ge> 2 \<Longrightarrow> rotate_p q ! 0 = q ! 0"
  by (cases q rule: rev_cases) (auto simp: rotate_p_def Let_def nth_append take_Suc_conv_app_nth hd_conv_nth)

lemma rotate_p_nth:
  assumes "length q = Suc m" "1 \<le> j" "j \<le> m"
  shows "rotate_p q ! Suc (j mod m) = q ! j"
proof -
  from assms obtain ys y where q: "q = ys @ [y]" and ly: "length ys = m"
    by (cases q rule: rev_cases) auto
  from assms ly obtain z zs where ys: "ys = z # zs"
    by (cases ys) auto
  have r: "rotate_p q = z # y # zs"
    by (simp add: q ys rotate_p_def Let_def)
  show ?thesis
  proof (cases "j = m")
    case True
    then show ?thesis unfolding r using ly by (simp add: q nth_append)
  next
    case False
    with assms have "j < m" by simp
    then show ?thesis
      unfolding r using assms(2) ly by (cases j) (auto simp: q ys nth_append)
  qed
qed

lemma funpow_rotate_p_length [simp]: "length ((rotate_p ^^ r) q) = length q"
  by (induction r) simp_all

lemma funpow_rotate_p_mset [simp]: "mset ((rotate_p ^^ r) q) = mset q"
  by (induction r) simp_all

lemma tau_le: "m \<ge> 1 \<Longrightarrow> u \<le> m \<Longrightarrow> tau m r u \<le> m"
  by (auto simp: tau_def Suc_le_eq)

lemma tau_nth:
  assumes "length q = Suc m" "m \<ge> 1" "u \<le> m"
  shows "((rotate_p ^^ r) q) ! (tau m r u) = q ! u"
proof (induction r)
  case 0
  show ?case using assms by (auto simp: tau_def)
next
  case (Suc r)
  let ?q = "(rotate_p ^^ r) q"
  have len: "length ?q = Suc m" using assms(1) by simp
  show ?case
  proof (cases "u = 0")
    case True
    then show ?thesis
      using Suc len rotate_p_nth_0[of ?q] assms(2) by (simp add: tau_def)
  next
    case False
    let ?j = "tau m r u"
    have j: "1 \<le> ?j" "?j \<le> m"
      using False assms(2) by (auto simp: tau_def Suc_le_eq)
    have "tau m (Suc r) u = Suc (?j mod m)"
      using False by (simp add: tau_def mod_Suc_eq)
    then show ?thesis
      using rotate_p_nth[OF len j] Suc by simp
  qed
qed

subsection \<open>Arithmetic of the circle method\<close>

text \<open>
  With an odd number \<open>m\<close> of rotating places, two players stand at mirrored positions
  (positions that add up to \<open>m\<close>) in exactly one of the \<open>m\<close> rounds: the condition is
  a congruence in the round number whose coefficient, 1 or 2, is coprime to \<open>m\<close>.
\<close>

lemma unique_round:
  fixes m s k :: nat
  assumes "coprime m k" "m > 0"
  shows "\<exists>!r. r < m \<and> m dvd s + k * r"
proof -
  let ?f = "\<lambda>r. (s + k * r) mod m"
  have eq: "r = r'" if "r \<le> r'" "r' < m" "?f r = ?f r'" for r r'
  proof -
    have "m dvd (s + k * r') - (s + k * r)"
      using that(1,3) by (subst mod_eq_dvd_iff_nat[symmetric]) simp_all
    then have "m dvd k * (r' - r)"
      by (simp add: right_diff_distrib')
    then have "m dvd r' - r"
      using assms(1) by (simp add: coprime_dvd_mult_right_iff)
    moreover have "r' - r < m" using that(2) by simp
    ultimately have "r' - r = 0"
      using dvd_imp_le[of m "r' - r"] by (cases "r' - r = 0") auto
    with that(1) show ?thesis by simp
  qed
  have inj: "inj_on ?f {..<m}"
  proof (rule inj_onI)
    fix r r' assume "r \<in> {..<m}" "r' \<in> {..<m}" "?f r = ?f r'"
    then show "r = r'"
      using eq[of r r'] eq[of r' r] by (cases "r \<le> r'") auto
  qed
  have "?f ` {..<m} = {..<m}"
    using assms(2) by (intro endo_inj_surj inj) auto
  with assms(2) have "0 \<in> ?f ` {..<m}" by simp
  then obtain r where r: "r < m" "m dvd s + k * r"
    by (auto simp: mod_eq_0_iff_dvd)
  show ?thesis
  proof (rule ex1I[of _ r])
    show "r < m \<and> m dvd s + k * r" using r by simp
    fix r' assume "r' < m \<and> m dvd s + k * r'"
    then have "?f r' = ?f r" "r' \<in> {..<m}" using r by (simp_all add: mod_eq_0_iff_dvd)
    with inj r(1) show "r' = r" by (auto dest: inj_onD)
  qed
qed

lemma sum_dvd_iff:
  fixes m x y :: nat
  assumes "1 \<le> x" "x \<le> m" "1 \<le> y" "y \<le> m" "x \<noteq> y"
  shows "x + y = m \<longleftrightarrow> m dvd x + y"
proof
  assume "m dvd x + y"
  then obtain c where c: "x + y = m * c" ..
  from assms have "x + y < m * 2" "0 < x + y" by simp_all
  with c have "m * c < m * 2" "0 < m * c" by simp_all
  then have "c < 2" "0 < c" by simp_all
  then have "c = 1" by simp
  with c show "x + y = m" by simp
qed simp

lemma tau_mod: "u \<ge> 1 \<Longrightarrow> tau m r u mod m = (u + r) mod m"
proof -
  assume "u \<ge> 1"
  then have "tau m r u = Suc ((u - 1 + r) mod m)" "Suc (u - 1 + r) = u + r"
    by (simp_all add: tau_def)
  then show ?thesis
    by (metis mod_Suc_eq)
qed

lemma tau_range: "m > 0 \<Longrightarrow> u \<ge> 1 \<Longrightarrow> 1 \<le> tau m r u \<and> tau m r u \<le> m"
  by (auto simp: tau_def Suc_le_eq)

lemma tau_inj:
  assumes "m > 0" "u \<le> m" "v \<le> m" "tau m r u = tau m r v"
  shows "u = v"
proof (cases "u = 0 \<or> v = 0")
  case True
  with assms(4) show ?thesis by (auto simp: tau_def split: if_splits)
next
  case False
  then have 1: "u \<ge> 1" "v \<ge> 1" by simp_all
  have eq: "a = b" if "a \<le> b" "1 \<le> a" "b \<le> m" "tau m r a = tau m r b" for a b
  proof -
    from that have "(a - 1 + r) mod m = (b - 1 + r) mod m"
      by (simp add: tau_def)
    moreover have "a - 1 + r \<le> b - 1 + r" using that by simp
    ultimately have "m dvd (b - 1 + r) - (a - 1 + r)"
      using mod_eq_dvd_iff_nat[of "a - 1 + r" "b - 1 + r" m] by simp
    moreover have "(b - 1 + r) - (a - 1 + r) = b - a" using that by simp
    moreover have "b - a < m" using that by simp
    ultimately have "b - a = 0"
      using dvd_imp_le[of m "b - a"] by (cases "b - a = 0") auto
    with that show ?thesis by simp
  qed
  show ?thesis
    using eq[of u v] eq[of v u] 1 assms by (cases "u \<le> v") auto
qed

lemma tau_round_unique:
  assumes "odd m" "u \<le> m" "v \<le> m" "u \<noteq> v"
  shows "\<exists>!r. r < m \<and> tau m r u + tau m r v = m"
proof -
  from assms(1) have m: "m > 0" by (cases m) auto
  have top: "tau m r w = m \<longleftrightarrow> m dvd w + r" if "w \<ge> 1" for w r
  proof -
    from tau_range[OF m that, of r] have "tau m r w = m \<longleftrightarrow> m dvd tau m r w"
      using dvd_imp_le[of m "tau m r w"] by auto
    also have "\<dots> \<longleftrightarrow> tau m r w mod m = 0" by (simp add: mod_eq_0_iff_dvd)
    also have "\<dots> \<longleftrightarrow> m dvd w + r" by (simp add: tau_mod[OF that] mod_eq_0_iff_dvd)
    finally show ?thesis .
  qed
  consider "u = 0" "v \<ge> 1" | "v = 0" "u \<ge> 1" | "u \<ge> 1" "v \<ge> 1"
    using assms(4) by (cases u; cases v) auto
  then show ?thesis
  proof cases
    case 1
    have "\<exists>!r. r < m \<and> m dvd v + 1 * r"
      using m by (intro unique_round) simp_all
    then show ?thesis
      using 1 top[OF 1(2)] by (simp add: tau_def)
  next
    case 2
    have "\<exists>!r. r < m \<and> m dvd u + 1 * r"
      using m by (intro unique_round) simp_all
    then show ?thesis
      using 2 top[OF 2(2)] by (simp add: tau_def)
  next
    case 3
    have iff: "tau m r u + tau m r v = m \<longleftrightarrow> m dvd (u + v) + 2 * r" for r
    proof -
      have ne: "tau m r u \<noteq> tau m r v"
        using tau_inj[OF m assms(2,3)] assms(4) by blast
      have "tau m r u + tau m r v = m \<longleftrightarrow> m dvd tau m r u + tau m r v"
        using tau_range[OF m 3(1), of r] tau_range[OF m 3(2), of r] ne
        by (intro sum_dvd_iff) simp_all
      also have "\<dots> \<longleftrightarrow> (tau m r u mod m + tau m r v mod m) mod m = 0"
        by (simp add: mod_eq_0_iff_dvd mod_add_eq)
      also have "\<dots> \<longleftrightarrow> ((u + r) + (v + r)) mod m = 0"
        by (simp only: tau_mod[OF 3(1)] tau_mod[OF 3(2)] mod_add_eq)
      also have "(u + r) + (v + r) = (u + v) + 2 * r"
        by simp
      also have "((u + v) + 2 * r) mod m = 0 \<longleftrightarrow> m dvd (u + v) + 2 * r"
        by (simp only: mod_eq_0_iff_dvd)
      finally show ?thesis .
    qed
    have "\<exists>!r. r < m \<and> m dvd (u + v) + 2 * r"
      using m assms(1) by (intro unique_round) simp_all
    then show ?thesis
      by (simp only: iff)
  qed
qed

subsection \<open>Counting the matches of a pair\<close>

lemma length_filter_upt: "length (filter P [0..<h]) = card {i. i < h \<and> P i}"
proof -
  have "distinct (filter P [0..<h])" by simp
  moreover have "set (filter P [0..<h]) = {i. i < h \<and> P i}" by auto
  ultimately show ?thesis by (metis distinct_card)
qed

lemma pair_slot:
  assumes "distinct q" "length q = Suc m" "odd m" "a \<le> m" "b \<le> m" "a \<noteq> b"
  shows "length (filter (\<lambda>i. {q ! i, q ! (m - i)} = {q ! a, q ! b}) [0..<Suc m div 2])
           = (if a + b = m then 1 else 0)"
proof -
  let ?h = "Suc m div 2"
  let ?P = "\<lambda>i. {q ! i, q ! (m - i)} = {q ! a, q ! b}"
  have idx: "q ! i = q ! j \<longleftrightarrow> i = j" if "i \<le> m" "j \<le> m" for i j
    using assms(1,2) that by (simp add: nth_eq_iff_index_eq)
  have h: "i < ?h \<longleftrightarrow> 2 * i < m" for i
    using assms(3) by (auto elim!: oddE)
  have P: "?P i \<longleftrightarrow> (i = a \<and> m - i = b) \<or> (i = b \<and> m - i = a)" if "i < ?h" for i
  proof -
    from that h have "i \<le> m" "m - i \<le> m" by simp_all
    then show ?thesis
      using assms(4,5) by (simp add: doubleton_eq_iff idx)
  qed
  have "{i. i < ?h \<and> ?P i} = (if a + b = m then {min a b} else {})"
  proof (cases "a + b = m")
    case True
    have "i < ?h \<and> ?P i \<longleftrightarrow> i = min a b" for i
    proof
      assume "i < ?h \<and> ?P i"
      then have "2 * i < m" "(i = a \<and> m - i = b) \<or> (i = b \<and> m - i = a)"
        using h P by auto
      with True show "i = min a b" by auto
    next
      assume i: "i = min a b"
      with True assms(6) have "2 * i < m" by auto
      then have "i < ?h" using h by simp
      moreover from i True have "(i = a \<and> m - i = b) \<or> (i = b \<and> m - i = a)" by auto
      ultimately show "i < ?h \<and> ?P i" using P by simp
    qed
    with True show ?thesis by auto
  next
    case False
    have "\<not> (i < ?h \<and> ?P i)" for i
    proof
      assume "i < ?h \<and> ?P i"
      then have "2 * i < m" "(i = a \<and> m - i = b) \<or> (i = b \<and> m - i = a)"
        using h P by auto
      with False show False by auto
    qed
    with False show ?thesis by auto
  qed
  moreover have "length (filter ?P [0..<?h]) = card {i. i < ?h \<and> ?P i}"
    by (rule length_filter_upt)
  ultimately show ?thesis by simp
qed

lemma sum_list_indicator:
  "sum_list (map (\<lambda>j. if Q j then 1 else 0) xs) = length (filter Q xs)"
  by (induction xs) simp_all

lemma unique_upt_filter:
  assumes "\<exists>!j. j < m \<and> Q j"
  shows "length (filter Q [0..<m]) = 1"
proof -
  from assms obtain j where j: "j < m" "Q j" "\<And>i. i < m \<Longrightarrow> Q i \<Longrightarrow> i = j"
    by auto
  have "{i. i < m \<and> Q i} = {j}" using j by blast
  then show ?thesis
    by (simp add: length_filter_upt)
qed

lemma length_filter_concat:
  "length (filter P (concat xss)) = sum_list (map (\<lambda>xs. length (filter P xs)) xss)"
  by (induction xss) simp_all


lemma round_count:
  assumes "distinct q" "length q = Suc m" "odd m" "a \<le> m" "b \<le> m" "a \<noteq> b"
    "truthy (pid (q ! a))" "truthy (pid (q ! b))"
  shows "length (filter (\<lambda>l. set l = {q ! a, q ! b}) (map (\<lambda>(a, b). [a, b]) (round_pairs q)))
           = (if a + b = m then 1 else 0)"
proof -
  let ?C = "\<lambda>i. truthy (pid (q ! i)) \<and> truthy (pid (q ! (m - i)))"
  let ?P = "\<lambda>i. {q ! i, q ! (m - i)} = {q ! a, q ! b}"
  have PC: "?P i \<Longrightarrow> ?C i" for i
    using assms(7,8) by (auto simp: doubleton_eq_iff)
  have "filter (\<lambda>l. set l = {q ! a, q ! b}) (map (\<lambda>(a, b). [a, b]) (round_pairs q))
          = map (\<lambda>i. [q ! i, q ! (m - i)]) (filter ?P (filter ?C [0..<Suc m div 2]))"
    by (simp add: round_pairs_alt assms(2) filter_map comp_def)
  also have "filter ?P (filter ?C [0..<Suc m div 2]) = filter ?P [0..<Suc m div 2]"
    using PC by (auto intro!: filter_cong)
  finally show ?thesis
    using pair_slot[OF assms(1-6)] by simp
qed

lemma distinct_funpow_rotate_p: "distinct ((rotate_p ^^ r) q) = distinct q"
  by (rule mset_eq_imp_distinct_iff) simp

lemma rr_pair_count:
  assumes "distinct p" "length p = Suc m" "odd m" "x \<in> set p" "y \<in> set p" "x \<noteq> y"
    "truthy (pid x)" "truthy (pid y)"
  shows "length (filter (\<lambda>l. set l = {x, y})
           (concat (map (\<lambda>j. map (\<lambda>(a, b). [a, b]) (round_pairs ((rotate_p ^^ j) p))) [0..<m])))
         = 1"
proof -
  from assms(3) have m: "m \<ge> 1" by (cases m) auto
  from assms(2,4,5) obtain u v where uv: "u \<le> m" "v \<le> m" "x = p ! u" "y = p ! v"
    by (auto simp: in_set_conv_nth less_Suc_eq_le)
  with assms(6) have ne: "u \<noteq> v" by auto
  have cnt: "length (filter (\<lambda>l. set l = {x, y})
                 (map (\<lambda>(a, b). [a, b]) (round_pairs ((rotate_p ^^ j) p))))
               = (if tau m j u + tau m j v = m then 1 else 0)" for j
  proof -
    let ?q = "(rotate_p ^^ j) p"
    have q: "distinct ?q" "length ?q = Suc m"
      using assms(1,2) by (simp_all add: distinct_funpow_rotate_p)
    have x: "?q ! tau m j u = x" and y: "?q ! tau m j v = y"
      using tau_nth[OF assms(2) m] uv by simp_all
    have t: "tau m j u \<le> m" "tau m j v \<le> m"
      using tau_le[OF m] uv by simp_all
    have tne: "tau m j u \<noteq> tau m j v"
      using x y assms(6) by auto
    show ?thesis
      using round_count[OF q assms(3) t tne] assms(7,8) by (simp add: x y)
  qed
  have "length (filter (\<lambda>l. set l = {x, y})
           (concat (map (\<lambda>j. map (\<lambda>(a, b). [a, b]) (round_pairs ((rotate_p ^^ j) p))) [0..<m])))
        = sum_list (map (\<lambda>j. if tau m j u + tau m j v = m then 1 else 0) [0..<m])"
    by (simp only: length_filter_concat map_map comp_def cnt)
  also have "\<dots> = length (filter (\<lambda>j. tau m j u + tau m j v = m) [0..<m])"
    by (rule sum_list_indicator)
  also have "\<dots> = 1"
    by (rule unique_upt_filter) (rule tau_round_unique[OF assms(3) uv(1,2) ne])
  finally show ?thesis .
qed

subsection \<open>A round uses every player at most once\<close>

lemma mirror_indices_distinct:
  assumes "odd m"
  shows "distinct (concat (map (\<lambda>i. [i, m - i]) (filter C [0..<Suc m div 2])))"
proof (rule distinct_concat)
  have h: "2 * i < m" if "i < Suc m div 2" for i
    using assms that by (auto elim!: oddE)
  have mem: "\<exists>i. ys = [i, m - i] \<and> 2 * i < m"
    if "ys \<in> set (map (\<lambda>i. [i, m - i]) (filter C [0..<Suc m div 2]))" for ys
  proof -
    from that obtain i where "ys = [i, m - i]" "i < Suc m div 2" by auto
    with h[of i] show ?thesis by blast
  qed
  show "distinct (map (\<lambda>i. [i, m - i]) (filter C [0..<Suc m div 2]))"
    by (simp add: distinct_map inj_on_def)
  show "distinct ys" if "ys \<in> set (map (\<lambda>i. [i, m - i]) (filter C [0..<Suc m div 2]))" for ys
  proof -
    from mem[OF that] obtain i where "ys = [i, m - i]" "2 * i < m" by blast
    then show ?thesis by simp
  qed
  show "set ys \<inter> set zs = {}"
    if "ys \<in> set (map (\<lambda>i. [i, m - i]) (filter C [0..<Suc m div 2]))"
       "zs \<in> set (map (\<lambda>i. [i, m - i]) (filter C [0..<Suc m div 2]))" "ys \<noteq> zs" for ys zs
  proof -
    from mem[OF that(1)] obtain i where i: "ys = [i, m - i]" "2 * i < m" by blast
    from mem[OF that(2)] obtain j where j: "zs = [j, m - j]" "2 * j < m" by blast
    from that(3) i j have "i \<noteq> j" by auto
    with i j show ?thesis by auto
  qed
qed

lemma round_distinct:
  assumes "distinct q" "length q = Suc m" "odd m"
  shows "distinct (concat (map (\<lambda>(a, b). [a, b]) (round_pairs q)))"
proof -
  let ?C = "\<lambda>i. truthy (pid (q ! i)) \<and> truthy (pid (q ! (m - i)))"
  let ?idx = "concat (map (\<lambda>i. [i, m - i]) (filter ?C [0..<Suc m div 2]))"
  have "concat (map (\<lambda>(a, b). [a, b]) (round_pairs q)) = map (nth q) ?idx"
    by (simp add: round_pairs_alt assms(2) comp_def map_concat)
  moreover have "distinct ?idx"
    by (rule mirror_indices_distinct) fact
  moreover have "set ?idx \<subseteq> {..m}"
    by auto
  then have "inj_on (nth q) (set ?idx)"
    using assms(1,2) by (auto simp: inj_on_def nth_eq_iff_index_eq)
  ultimately show ?thesis
    by (simp add: distinct_map)
qed

lemma round_pairs_members:
  "(a, b) \<in> set (round_pairs q) \<Longrightarrow>
   a \<in> set q \<and> b \<in> set q \<and> truthy (pid a) \<and> truthy (pid b)"
proof -
  assume "(a, b) \<in> set (round_pairs q)"
  then obtain i where i: "i < length q div 2" "a = q ! i" "b = q ! (length q - 1 - i)"
    "truthy (pid a)" "truthy (pid b)"
    by (auto simp: round_pairs_alt)
  then have "i < length q" "length q - 1 - i < length q" by auto
  with i show ?thesis by simp
qed

subsection \<open>Completeness\<close>

lemma generateRoundRobin_rounds:
  "b_rounds (fst (generateRoundRobin rnd k ps)) =
     fst (rr_rounds rnd k (length (padded ps) - 1) (padded ps))"
  by (simp add: generateRoundRobin_def padded_def Let_def split: prod.splits)

lemma padded_facts:
  assumes "distinct (map pid ps)" "\<forall>p \<in> set ps. truthy (pid p)"
  shows "distinct (padded ps)" "even (length (padded ps))" "set ps \<subseteq> set (padded ps)"
    "\<And>x. x \<in> set (padded ps) \<Longrightarrow> truthy (pid x) \<Longrightarrow> x \<in> set ps"
proof -
  have "bye \<notin> set ps"
    using assms(2) by (auto simp: bye_def)
  moreover have "distinct ps"
    using assms(1) by (simp add: distinct_map)
  ultimately show "distinct (padded ps)"
    by (simp add: padded_def)
  show "even (length (padded ps))"
    by (auto simp: padded_def odd_iff_mod_2_eq_one)
  show "set ps \<subseteq> set (padded ps)"
    by (auto simp: padded_def)
  show "x \<in> set ps" if "x \<in> set (padded ps)" "truthy (pid x)" for x
    using that by (auto simp: padded_def bye_def split: if_splits)
qed

lemma length_filter_map: "length (filter P (map f xs)) = length (filter (\<lambda>x. P (f x)) xs)"
  by (induction xs) simp_all

text \<open>
  Claim C3, as amended. For players with distinct truthy ids (strings that are not
  empty), even or odd in number, every two of them meet in exactly one match of the
  round-robin rounds, no player occurs twice among the participants of one round, and
  every match is between two players of the list.
\<close>

theorem generateRoundRobin_complete:
  assumes "distinct (map pid ps)" "\<forall>p \<in> set ps. truthy (pid p)"
  shows "(\<forall>x \<in> set ps. \<forall>y \<in> set ps. x \<noteq> y \<longrightarrow>
            length (filter (\<lambda>m. set (mplayers m) = {x, y})
                      (concat (b_rounds (fst (generateRoundRobin rnd k ps))))) = 1) \<and>
         (\<forall>r \<in> set (b_rounds (fst (generateRoundRobin rnd k ps))).
            distinct (concat (map mplayers r))) \<and>
         (\<forall>m \<in> set (concat (b_rounds (fst (generateRoundRobin rnd k ps)))).
            length (mplayers m) = 2 \<and> set (mplayers m) \<subseteq> set ps)"
proof (cases "padded ps = []")
  case True
  then have "ps = []" by (auto simp: padded_def split: if_splits)
  then show ?thesis
    by (simp add: generateRoundRobin_rounds padded_def)
next
  case False
  let ?p = "padded ps"
  let ?rs = "b_rounds (fst (generateRoundRobin rnd k ps))"
  note pf = padded_facts[OF assms]
  from False obtain m where len: "length ?p = Suc m"
    by (cases ?p) auto
  with pf(2) have odd: "odd m" by simp
  have players: "map (map mplayers) ?rs =
      map (\<lambda>j. map (\<lambda>(a, b). [a, b]) (round_pairs ((rotate_p ^^ j) ?p))) [0..<m]"
    by (simp add: generateRoundRobin_rounds len rr_rounds_players)
  have 1: "length (filter (\<lambda>mt. set (mplayers mt) = {x, y}) (concat ?rs)) = 1"
    if "x \<in> set ps" "y \<in> set ps" "x \<noteq> y" for x y
  proof -
    have "length (filter (\<lambda>mt. set (mplayers mt) = {x, y}) (concat ?rs))
            = length (filter (\<lambda>l. set l = {x, y}) (concat (map (map mplayers) ?rs)))"
      by (simp only: map_concat[symmetric] length_filter_map)
    also have "\<dots> = 1"
      unfolding players
      using that pf(3) assms(2) by (intro rr_pair_count[OF pf(1) len odd]) auto
    finally show ?thesis .
  qed
  have round: "\<exists>j. map mplayers r = map (\<lambda>(a, b). [a, b]) (round_pairs ((rotate_p ^^ j) ?p))"
    if "r \<in> set ?rs" for r
  proof -
    from that have "map mplayers r \<in> set (map (map mplayers) ?rs)" by simp
    then show ?thesis unfolding players by auto
  qed
  have 2: "distinct (concat (map mplayers r))" if "r \<in> set ?rs" for r
  proof -
    from round[OF that] obtain j
      where "map mplayers r = map (\<lambda>(a, b). [a, b]) (round_pairs ((rotate_p ^^ j) ?p))" ..
    then show ?thesis
      using round_distinct[of "(rotate_p ^^ j) ?p" m] pf(1) len odd
      by (simp add: distinct_funpow_rotate_p)
  qed
  have 3: "length (mplayers mt) = 2 \<and> set (mplayers mt) \<subseteq> set ps" if "mt \<in> set (concat ?rs)" for mt
  proof -
    from that obtain r where r: "r \<in> set ?rs" "mt \<in> set r" by auto
    from round[OF r(1)] obtain j
      where j: "map mplayers r = map (\<lambda>(a, b). [a, b]) (round_pairs ((rotate_p ^^ j) ?p))" ..
    from r(2) have "mplayers mt \<in> set (map mplayers r)" by simp
    then obtain a b where ab: "mplayers mt = [a, b]" "(a, b) \<in> set (round_pairs ((rotate_p ^^ j) ?p))"
      unfolding j by auto
    from round_pairs_members[OF ab(2)] have "a \<in> set ?p" "b \<in> set ?p" "truthy (pid a)" "truthy (pid b)"
      by (simp_all add: set_mset_mset[symmetric] del: set_mset_mset)
    with pf(4) ab(1) show ?thesis by simp
  qed
  from 1 2 3 show ?thesis by blast
qed

text \<open>Alice, Bob and Carol: a bye in every round, and one match for every pair.\<close>

theorem generateRoundRobin_complete_witness:
  "distinct (map pid ex_players) \<and> list_all (\<lambda>p. truthy (pid p)) ex_players \<and>
   length (filter (\<lambda>m. set (mplayers m) = {alice, bob})
             (concat (b_rounds (fst (generateRoundRobin ex_rnd 0 ex_players))))) = 1 \<and>
   length (filter (\<lambda>m. set (mplayers m) = {bob, carol})
             (concat (b_rounds (fst (generateRoundRobin ex_rnd 0 ex_players))))) = 1 \<and>
   map (map (map pname \<circ> mplayers)) (b_rounds (fst (generateRoundRobin ex_rnd 0 ex_players)))
     = [[[''Bob'', ''Carol'']], [[''Alice'', ''Carol'']], [[''Alice'', ''Bob'']]]"
proof -
  have d: "distinct (map pid ex_players)"
    by (simp add: ex_players_def alice_def bob_def carol_def)
  have t: "\<forall>p \<in> set ex_players. truthy (pid p)"
    by (simp add: ex_players_def alice_def bob_def carol_def)
  have mem: "alice \<in> set ex_players" "bob \<in> set ex_players" "carol \<in> set ex_players"
    "alice \<noteq> bob" "bob \<noteq> carol"
    by (simp_all add: ex_players_def alice_def bob_def carol_def)
  note th = generateRoundRobin_complete[OF d t, of ex_rnd 0]
  from th mem have "length (filter (\<lambda>m. set (mplayers m) = {alice, bob})
             (concat (b_rounds (fst (generateRoundRobin ex_rnd 0 ex_players))))) = 1"
    by blast
  moreover from th mem have "length (filter (\<lambda>m. set (mplayers m) = {bob, carol})
             (concat (b_rounds (fst (generateRoundRobin ex_rnd 0 ex_players))))) = 1"
    by blast
  moreover have "map (map (map pname \<circ> mplayers))
       (b_rounds (fst (generateRoundRobin ex_rnd 0 ex_players)))
     = [[[''Bob'', ''Carol'']], [[''Alice'', ''Carol'']], [[''Alice'', ''Bob'']]]"
    by code_simp
  ultimately show ?thesis
    using d t by (simp add: list_all_iff)
qed

text \<open>
  The claim as stated fails for an id that is not null but empty: the guard
  \<open>a.id && b.id\<close> takes the player for a bye, and the only round of the two players
  has no match.
\<close>

theorem generateRoundRobin_complete_counterexample:
  "pid anon \<noteq> Null \<and> pid bob \<noteq> Null \<and> pid anon \<noteq> pid bob \<and>
   b_rounds (fst (generateRoundRobin ex_rnd 0 [anon, bob])) = [[]]"
  by code_simp

end
